theory Spec2Isabelle
  imports Main "HOL-Library.Sublist"
begin

section \<open>Python strings\<close>

text \<open>
  A Python \<open>str\<close> is a sequence of Unicode code points. A code point is a natural number
  and a string a list of them, so that the em dash (8212), the en dash (8211) and the
  emoji of the documents are single characters, as they are for the scripts.
  \<open>ustr\<close> reads an ASCII literal.
\<close>

type_synonym ustring = "nat list"

definition ustr :: "string \<Rightarrow> ustring" where
  "ustr s = map of_char s"

abbreviation NL :: nat where "NL \<equiv> 10"
abbreviation DQUOTE :: nat where "DQUOTE \<equiv> 34"
abbreviation BSLASH :: nat where "BSLASH \<equiv> 92"

text \<open>
  \<open>str.isspace\<close> on one character: the white space table of CPython. \<open>str.strip\<close>,
  \<open>str.lstrip\<close> and \<open>str.rstrip\<close> without argument remove these characters, and the
  regular expression class \<open>\s\<close> on \<open>str\<close> patterns is the same set.
\<close>

definition isspace :: "nat \<Rightarrow> bool" where
  "isspace c \<longleftrightarrow>
     (9 \<le> c \<and> c \<le> 13) \<or> (28 \<le> c \<and> c \<le> 32) \<or> c = 133 \<or> c = 160 \<or> c = 5760 \<or>
     (8192 \<le> c \<and> c \<le> 8202) \<or> c = 8232 \<or> c = 8233 \<or> c = 8239 \<or> c = 8287 \<or> c = 12288"

definition lstrip :: "ustring \<Rightarrow> ustring" where
  "lstrip s = dropWhile isspace s"

definition rstrip :: "ustring \<Rightarrow> ustring" where
  "rstrip s = rev (dropWhile isspace (rev s))"

definition strip :: "ustring \<Rightarrow> ustring" where
  "strip s = lstrip (rstrip s)"

text \<open>\<open>s.startswith(p)\<close>.\<close>

definition startswith :: "ustring \<Rightarrow> ustring \<Rightarrow> bool" where
  "startswith s p = prefix p s"

text \<open>
  \<open>s.replace(old, new)\<close> where \<open>old\<close> is one character, which is every use in the
  scripts: each occurrence of the character is replaced, left to right.
\<close>

definition str_replace :: "nat \<Rightarrow> ustring \<Rightarrow> ustring \<Rightarrow> ustring" where
  "str_replace old new s = concat (map (\<lambda>c. if c = old then new else [c]) s)"

text \<open>\<open>s.split(sep)\<close> for a one-character separator: at least one piece, also for the empty string.\<close>

fun split_chr :: "nat \<Rightarrow> ustring \<Rightarrow> ustring list" where
  "split_chr sep [] = [[]]"
| "split_chr sep (c # cs) =
     (if c = sep then [] # split_chr sep cs
      else (case split_chr sep cs of
              [] \<Rightarrow> [[c]]
            | w # ws \<Rightarrow> (c # w) # ws))"

text \<open>\<open>sep.join(xs)\<close>.\<close>

fun join :: "ustring \<Rightarrow> ustring list \<Rightarrow> ustring" where
  "join sep [] = []"
| "join sep [x] = x"
| "join sep (x # y # ys) = x @ sep @ join sep (y # ys)"

text \<open>\<open>xs[a:b]\<close> for indices that are not negative; Python clamps both to the length.\<close>

definition slice :: "'a list \<Rightarrow> nat \<Rightarrow> nat \<Rightarrow> 'a list" where
  "slice xs a b = drop a (take b xs)"


section \<open>Escaping (\<open>escape_swift_string\<close>, \<open>esc\<close>)\<close>

text \<open>
  \<^verbatim>\<open>s.replace('\\', '\\\\').replace('"', '\\"').replace('\n', '\\n')\<close>:
  the same body in parse_questions.py, parser2.py, generate_puzzles.py (\<open>esc\<close>) and
  the generate_questions scripts. Backslash is 92, the double quote 34, line feed 10
  and the letter n 110.
\<close>

definition escape_swift_string :: "ustring \<Rightarrow> ustring" where
  "escape_swift_string s =
     str_replace NL [BSLASH, 110]
       (str_replace DQUOTE [BSLASH, DQUOTE]
          (str_replace BSLASH [BSLASH, BSLASH] s))"

text \<open>
  The inverse that the specification speaks of is not part of the scripts. This definition
  follows the specification's words: after a backslash, \<open>n\<close> stands for a line feed and
  any other character for itself.
\<close>

fun unescape_swift_string :: "ustring \<Rightarrow> ustring" where
  "unescape_swift_string [] = []"
| "unescape_swift_string [c] = [c]"
| "unescape_swift_string (c # d # cs) =
     (if c = BSLASH then (if d = 110 then NL else d) # unescape_swift_string cs
      else c # unescape_swift_string (d # cs))"

text \<open>What the three passes do to one character.\<close>

definition esc_chr :: "nat \<Rightarrow> ustring" where
  "esc_chr c =
     (if c = BSLASH then [BSLASH, BSLASH]
      else if c = DQUOTE then [BSLASH, DQUOTE]
      else if c = NL then [BSLASH, 110]
      else [c])"


section \<open>Character classes taken from the interpreter\<close>

text \<open>
  \<open>str.isdigit\<close>, \<open>str.isalpha\<close> and the class \<open>\d\<close> of regular expressions read
  the Unicode character database of the interpreter, which is not part of the repository.
  The functions that use them take the three predicates as a parameter, and the
  theorems hold for every such database. \<open>ascii_db\<close> agrees with Python on every ASCII
  character; the concrete examples use it on ASCII text.
\<close>

record chardb =
  isdigit :: "nat \<Rightarrow> bool"
  isalpha :: "nat \<Rightarrow> bool"
  re_digit :: "nat \<Rightarrow> bool"

definition ascii_db :: chardb where
  "ascii_db =
     \<lparr> isdigit = (\<lambda>c. 48 \<le> c \<and> c \<le> 57),
       isalpha = (\<lambda>c. (65 \<le> c \<and> c \<le> 90) \<or> (97 \<le> c \<and> c \<le> 122)),
       re_digit = (\<lambda>c. 48 \<le> c \<and> c \<le> 57) \<rparr>"


section \<open>The field loop of parser2.py and parse_questions.py\<close>

datatype py_error = KeyError | IndexError | NameError

text \<open>\<open>headers_map\<close>: a dict literal, in insertion order, the same in both scripts.\<close>

definition headers_map :: "(ustring \<times> ustring) list" where
  "headers_map =
     [(ustr ''Broken Code'', ustr ''initialCode''),
      (ustr ''Error'', ustr ''description''),
      (ustr ''Correct Code'', ustr ''correctCode''),
      (ustr ''Riddle'', ustr ''riddle''),
      (ustr ''Hidden Test Cases (Logic-validated)'', ustr ''hiddenTests''),
      (ustr ''Logic Rule'', ustr ''conceptExplanation''),
      (ustr ''Regex / Token Rules'', ustr ''expectedPatterns''),
      (ustr ''Answer'', ustr ''answer'')]"

text \<open>
  The test of one label \<open>h\<close> against the stripped line. parser2.py:
  \<^verbatim>\<open>line_stripped.startswith(h) and len(line_stripped) <= len(h) + 5\<close>
\<close>

definition label_test_parser2 :: "ustring \<Rightarrow> ustring \<Rightarrow> bool" where
  "label_test_parser2 h line_stripped \<longleftrightarrow>
     startswith line_stripped h \<and> length line_stripped \<le> length h + 5"

text \<open>
  parse_questions.py:
  \<^verbatim>\<open>if line_stripped.replace('\\', '') == h or h in line_stripped:\<close>
  \<^verbatim>\<open>    if line_stripped.startswith(h):\<close>
\<close>

definition label_test_parse_questions :: "ustring \<Rightarrow> ustring \<Rightarrow> bool" where
  "label_test_parse_questions h line_stripped \<longleftrightarrow>
     (str_replace BSLASH [] line_stripped = h \<or> sublist h line_stripped)
     \<and> startswith line_stripped h"

text \<open>\<open>for h in headers_map: if <test>: ...; break\<close>: the first label that passes.\<close>

definition find_header :: "(ustring \<Rightarrow> ustring \<Rightarrow> bool) \<Rightarrow> ustring \<Rightarrow> ustring option" where
  "find_header test line_stripped = find (\<lambda>h. test h line_stripped) (map fst headers_map)"

text \<open>
  \<^verbatim>\<open>if current_header:\<close>
  \<^verbatim>\<open>    fields[headers_map[current_header]] = '\n'.join(current_content).strip()\<close>
  \<open>current_header\<close> is \<open>None\<close> or a string; both \<open>None\<close> and the empty string are
  false. The subscript \<open>headers_map[...]\<close> raises KeyError on a missing key.
\<close>

type_synonym fields = "ustring \<rightharpoonup> ustring"

definition truthy :: "ustring option \<Rightarrow> bool" where
  "truthy current_header \<longleftrightarrow> current_header \<noteq> None \<and> current_header \<noteq> Some []"

definition store_field :: "ustring option \<Rightarrow> ustring list \<Rightarrow> fields \<Rightarrow> py_error + fields" where
  "store_field current_header current_content flds =
     (case current_header of
        None \<Rightarrow> Inr flds
      | Some h \<Rightarrow>
          if h = [] then Inr flds
          else (case map_of headers_map h of
                  None \<Rightarrow> Inl KeyError
                | Some role \<Rightarrow> Inr (flds(role \<mapsto> strip (join [NL] current_content)))))"

text \<open>
  One round of \<open>for line in body_lines\<close>. The state is \<open>current_header\<close>,
  \<open>current_content\<close> and \<open>fields\<close>. \<open>keep\<close> is what is appended for a line that is
  not a label: \<open>line.rstrip()\<close> in parser2.py, the line itself in parse_questions.py.
\<close>

type_synonym fstate = "ustring option \<times> ustring list \<times> fields"

definition fields_step ::
  "(ustring \<Rightarrow> ustring \<Rightarrow> bool) \<Rightarrow> (ustring \<Rightarrow> ustring) \<Rightarrow> fstate \<Rightarrow> ustring \<Rightarrow> py_error + fstate" where
  "fields_step test keep st line =
     (case st of (current_header, current_content, flds) \<Rightarrow>
        (case find_header test (strip line) of
           Some h \<Rightarrow>
             (case store_field current_header current_content flds of
                Inl e \<Rightarrow> Inl e
              | Inr flds' \<Rightarrow> Inr (Some h, [], flds'))
         | None \<Rightarrow>
             if truthy current_header
             then Inr (current_header, current_content @ [keep line], flds)
             else Inr st))"

fun fields_loop ::
  "(ustring \<Rightarrow> ustring \<Rightarrow> bool) \<Rightarrow> (ustring \<Rightarrow> ustring) \<Rightarrow> fstate \<Rightarrow> ustring list \<Rightarrow> py_error + fstate" where
  "fields_loop test keep st [] = Inr st"
| "fields_loop test keep st (line # lines) =
     (case fields_step test keep st line of
        Inl e \<Rightarrow> Inl e
      | Inr st' \<Rightarrow> fields_loop test keep st' lines)"

text \<open>The loop from the empty state, and the flush of the open field after it.\<close>

definition extract_fields ::
  "(ustring \<Rightarrow> ustring \<Rightarrow> bool) \<Rightarrow> (ustring \<Rightarrow> ustring) \<Rightarrow> ustring list \<Rightarrow> py_error + fields" where
  "extract_fields test keep body_lines =
     (case fields_loop test keep (None, [], Map.empty) body_lines of
        Inl e \<Rightarrow> Inl e
      | Inr (current_header, current_content, flds) \<Rightarrow>
          store_field current_header current_content flds)"

definition extract_fields_parser2 :: "ustring list \<Rightarrow> py_error + fields" where
  "extract_fields_parser2 body_lines = extract_fields label_test_parser2 rstrip body_lines"

definition extract_fields_parse_questions :: "ustring \<Rightarrow> py_error + fields" where
  "extract_fields_parse_questions body =
     extract_fields label_test_parse_questions (\<lambda>line. line) (split_chr NL body)"

text \<open>\<open>fields.get(key, '')\<close>.\<close>

definition fields_get :: "fields \<Rightarrow> ustring \<Rightarrow> ustring" where
  "fields_get flds key = (case flds key of None \<Rightarrow> [] | Some v \<Rightarrow> v)"


section \<open>Segmentation in parser2.py\<close>

text \<open>
  \<^verbatim>\<open>line.startswith('Q') and len(line) > 1 and line[1].isdigit()\<close>
\<close>

definition is_question_header :: "chardb \<Rightarrow> ustring \<Rightarrow> bool" where
  "is_question_header db line \<longleftrightarrow>
     startswith line (ustr ''Q'') \<and> length line > 1 \<and> isdigit db (line ! 1)"

text \<open>\<open>q_starts\<close>: the indices of the header lines, in the order of \<open>enumerate(lines)\<close>.\<close>

definition q_starts :: "chardb \<Rightarrow> ustring list \<Rightarrow> nat list" where
  "q_starts db lines = filter (\<lambda>i. is_question_header db (lines ! i)) [0..<length lines]"

text \<open>\<^verbatim>\<open>end_idx = q_starts[i+1] if i+1 < len(q_starts) else len(lines)\<close>\<close>

definition end_idx :: "nat list \<Rightarrow> nat \<Rightarrow> nat \<Rightarrow> nat" where
  "end_idx qs n i = (if i + 1 < length qs then qs ! (i + 1) else n)"

text \<open>
  Record \<open>i\<close> of the loop \<open>for i in range(len(q_starts))\<close>: the line
  \<open>lines[start_idx]\<close> and \<open>body_lines = lines[start_idx+1:end_idx]\<close>.
\<close>

definition record_span :: "ustring list \<Rightarrow> nat list \<Rightarrow> nat \<Rightarrow> ustring \<times> ustring list" where
  "record_span lines qs i =
     (lines ! (qs ! i), slice lines (qs ! i + 1) (end_idx qs (length lines) i))"

definition record_spans :: "chardb \<Rightarrow> ustring list \<Rightarrow> (ustring \<times> ustring list) list" where
  "record_spans db lines =
     map (record_span lines (q_starts db lines)) [0..<length (q_starts db lines)]"

text \<open>
  The title of a record.
  \<^verbatim>\<open>parts = header_line.split(' ', 2); q_id = parts[0]\<close>
  is the text before the first space (code point 32), the whole line when it has none.
\<close>

definition q_id :: "ustring \<Rightarrow> ustring" where
  "q_id header_line = takeWhile (\<lambda>c. c \<noteq> 32) header_line"




text \<open>
  The slices between consecutive start indices, the last one up to \<open>n\<close>: the spans
  written by recursion on the list of starts.
\<close>

fun segments :: "'a list \<Rightarrow> nat list \<Rightarrow> nat \<Rightarrow> 'a list list" where
  "segments xs [] n = []"
| "segments xs [q] n = [slice xs q n]"
| "segments xs (q # q' # qs) n = slice xs q q' # segments xs (q' # qs) n"

text \<open>A document of five lines: a preamble, two records, the last line unterminated.\<close>

definition doc1 :: "ustring list" where
  "doc1 = [ustr ''notes'' @ [NL], ustr ''Q1 - Typo'' @ [NL], ustr ''Broken Code'' @ [NL],
           ustr ''Q2 - Loop'' @ [NL], ustr ''Error'']"

text \<open>A text for generate_puzzles.py: a preamble and two puzzles.\<close>

definition doc2 :: ustring where
  "doc2 = ustr ''intro'' @ [NL] @ ustr ''1 Loops'' @ [NL] @ ustr ''Question: why?'' @ [NL]
          @ ustr ''2 Types'' @ [NL, NL] @ ustr ''Question: how?'' @ [NL]"


section \<open>Definitions used to state the properties\<close>

text \<open>The invariant of the field loop: \<open>current_header\<close> is \<open>None\<close> or a key of \<open>headers_map\<close>.\<close>

definition ok_cur :: "ustring option \<Rightarrow> bool" where
  "ok_cur cur \<longleftrightarrow> (case cur of None \<Rightarrow> True | Some h \<Rightarrow> h \<in> fst ` set headers_map)"


text \<open>
  The field text as the specification words it: the lines between two label lines, without
  their line terminators, the blank lines at both ends removed, the rest joined as it is.
\<close>

definition chomp :: "ustring \<Rightarrow> ustring" where
  "chomp line = (if line \<noteq> [] \<and> last line = NL then butlast line else line)"

definition blank_line :: "ustring \<Rightarrow> bool" where
  "blank_line line \<longleftrightarrow> strip line = []"

definition trim_blank_lines :: "ustring list \<Rightarrow> ustring list" where
  "trim_blank_lines ls = rev (dropWhile blank_line (rev (dropWhile blank_line ls)))"

definition spec_field_text :: "ustring list \<Rightarrow> ustring" where
  "spec_field_text content = join [NL] (trim_blank_lines (map chomp content))"

text \<open>The entry of a role in the result of an extraction; \<open>None\<close> also when the extraction failed.\<close>

definition field_of :: "py_error + fields \<Rightarrow> ustring \<Rightarrow> ustring option" where
  "field_of res key = (case res of Inl e \<Rightarrow> None | Inr m \<Rightarrow> m key)"

text \<open>Bodies of records, as \<open>body_lines\<close> of parser2.py has them (lines of \<open>readlines\<close>).\<close>

definition body1 :: "ustring list" where
  "body1 = [ustr ''Broken Code'' @ [NL], ustr ''    if x:'' @ [NL], ustr ''        y'' @ [NL]]"

definition body2 :: "ustring list" where
  "body2 = [ustr ''Broken Code'' @ [NL], [NL], ustr ''  a = 1  '' @ [NL], [NL], ustr ''    b'' @ [NL], [NL],
            ustr ''Error'' @ [NL], ustr ''Correct Code'' @ [NL], ustr ''ok'' @ [NL]]"

definition body3 :: "ustring list" where
  "body3 = [ustr ''Broken Code'' @ [NL], ustr ''x = 1'' @ [NL],
            ustr ''Correct Code'' @ [NL], ustr ''x = 2'' @ [NL]]"

definition body4 :: "ustring list" where
  "body4 = [ustr ''Broken Code'' @ [NL], ustr ''x = 1'' @ [NL], ustr ''Error'' @ [NL],
            ustr ''Correct Code'' @ [NL], ustr ''x = 2'' @ [NL]]"


section \<open>Titles\<close>

text \<open>\<open>str(n)\<close> for a number that is not negative: its decimal digits.\<close>

fun str_nat :: "nat \<Rightarrow> ustring" where
  "str_nat n = (if n < 10 then [48 + n] else str_nat (n div 10) @ [48 + n mod 10])"

declare str_nat.simps [simp del]





section \<open>Generated Swift text (parser2.py and parse_questions.py)\<close>

text \<open>
  One entry of the list \<open>questions\<close>: a dict with these eight keys (the key
  \<open>identifier\<close> is written \<open>identifier'\<close>).
\<close>

record question =
  identifier' :: ustring
  title :: ustring
  description :: ustring
  initialCode :: ustring
  correctCode :: ustring
  riddle :: ustring
  conceptExplanation :: ustring
  expectedPatterns :: ustring

text \<open>
  \<^verbatim>\<open>'title': f'Level 1 <en dash> Question {q_id[1:]}'\<close>, the other entries
  \<open>fields.get(..., '')\<close>.
\<close>

definition make_question :: "ustring \<Rightarrow> fields \<Rightarrow> question" where
  "make_question q_identifier flds =
     \<lparr> identifier' = q_identifier,
       title = ustr ''Level 1 '' @ [8211] @ ustr '' Question '' @ drop 1 q_identifier,
       description = fields_get flds (ustr ''description''),
       initialCode = fields_get flds (ustr ''initialCode''),
       correctCode = fields_get flds (ustr ''correctCode''),
       riddle = fields_get flds (ustr ''riddle''),
       conceptExplanation = fields_get flds (ustr ''conceptExplanation''),
       expectedPatterns = fields_get flds (ustr ''expectedPatterns'') \<rparr>"

text \<open>
  \<^verbatim>\<open>if regex_raw:\<close>
  \<^verbatim>\<open>    for l in regex_raw.split('\n'):\<close>
  \<^verbatim>\<open>        if l.strip(): regex_list.append(f'"{escape_swift_string(l.strip())}"')\<close>
\<close>

definition regex_list :: "ustring \<Rightarrow> ustring list" where
  "regex_list regex_raw =
     (if regex_raw = [] then []
      else map (\<lambda>l. [DQUOTE] @ escape_swift_string (strip l) @ [DQUOTE])
             (filter (\<lambda>l. strip l \<noteq> []) (split_chr NL regex_raw)))"

text \<open>The ten lines appended for one question; the title is not escaped.\<close>

definition question_lines :: "question \<Rightarrow> ustring list" where
  "question_lines q =
     [ustr ''            questions.append(Question('',
      ustr ''                title: '' @ [DQUOTE] @ title q @ [DQUOTE] @ ustr '','',
      ustr ''                description: '' @ [DQUOTE] @ escape_swift_string (description q)
        @ [DQUOTE] @ ustr '','',
      ustr ''                initialCode: '' @ [DQUOTE] @ escape_swift_string (initialCode q)
        @ [DQUOTE] @ ustr '','',
      ustr ''                correctCode: '' @ [DQUOTE] @ escape_swift_string (correctCode q)
        @ [DQUOTE] @ ustr '','',
      ustr ''                difficulty: 1,'',
      ustr ''                riddle: '' @ [DQUOTE] @ escape_swift_string (riddle q)
        @ [DQUOTE] @ ustr '','',
      ustr ''                conceptExplanation: '' @ [DQUOTE]
        @ escape_swift_string (conceptExplanation q) @ [DQUOTE] @ ustr '','',
      ustr ''                language: .swift,'',
      ustr ''                expectedPatterns: '' @ ustr ''[''
        @ join (ustr '', '') (regex_list (expectedPatterns q)) @ ustr '']'',
      ustr ''            ))'']"

definition swift_code :: "question list \<Rightarrow> ustring list" where
  "swift_code questions =
     [ustr ''    private static func generateLevel1Questions(for language: Language) -> [Question] {'',
      ustr ''        var questions: [Question] = []'',
      [],
      ustr ''        if language == .swift {'']
     @ concat (map question_lines questions)
     @ [ustr ''        }'',
        ustr ''        return questions'',
        ustr ''    }'']"


section \<open>The run of parser2.py\<close>

text \<open>
  What a run leaves behind: the strings given to \<open>print\<close>, one per call; the text
  written to the output file, if one was written; and how the run ended: at the end of
  the script, by \<open>exit(n)\<close>, or by an exception that nothing caught.
\<close>

datatype outcome = Finished | Exit nat | Uncaught py_error

record run_result =
  stdout :: "ustring list"
  written :: "ustring option"
  outcome :: outcome

definition file_path :: ustring where
  "file_path = ustr ''/Users/student/Downloads/debugg lb copy.swiftpm/questions_raw.txt''"

text \<open>
  The body of \<open>for i in range(len(q_starts))\<close> for one record: its header line and
  its body lines. \<open>q_title_suffix\<close> is computed there too and not used afterwards.
\<close>

definition question_parser2 :: "ustring \<times> ustring list \<Rightarrow> py_error + question" where
  "question_parser2 span =
     (case span of (line, body_lines) \<Rightarrow>
        (case extract_fields_parser2 body_lines of
           Inl e \<Rightarrow> Inl e
         | Inr flds \<Rightarrow> Inr (make_question (q_id (strip line)) flds)))"

text \<open>The results of a loop that stops at the first exception.\<close>

fun collect :: "('e + 'a) list \<Rightarrow> 'e + 'a list" where
  "collect [] = Inr []"
| "collect (x # xs) =
     (case x of
        Inl e \<Rightarrow> Inl e
      | Inr v \<Rightarrow> (case collect xs of Inl e \<Rightarrow> Inl e | Inr vs \<Rightarrow> Inr (v # vs)))"

text \<open>
  The script from its first line. The input is \<open>None\<close> when the file does not exist,
  and the list \<open>f.readlines()\<close> otherwise.
\<close>

definition parser2_run :: "chardb \<Rightarrow> ustring list option \<Rightarrow> run_result" where
  "parser2_run db file =
     (let out1 = [ustr ''SCRIPT STARTED'', ustr ''Reading '' @ file_path] in
      case file of
        None \<Rightarrow>
          \<lparr> stdout = out1 @ [ustr ''File not found''], written = None, outcome = Exit 1 \<rparr>
      | Some lines \<Rightarrow>
          let out2 = out1 @
                [ustr ''Read '' @ str_nat (length lines) @ ustr '' lines'',
                 ustr ''Found '' @ str_nat (length (q_starts db lines)) @ ustr '' questions'']
          in
          if q_starts db lines = []
          then \<lparr> stdout = out2, written = None, outcome = Exit 0 \<rparr>
          else (case collect (map question_parser2 (record_spans db lines)) of
                  Inl e \<Rightarrow> \<lparr> stdout = out2, written = None, outcome = Uncaught e \<rparr>
                | Inr questions \<Rightarrow>
                    \<lparr> stdout = out2 @ [join [NL] (swift_code questions)],
                      written = None, outcome = Finished \<rparr>))"


section \<open>The run of parse_questions.py\<close>

text \<open>
  \<^verbatim>\<open>re.finditer(r'^(Q\d+).*?([A-Za-z].+)$', content, re.MULTILINE)\<close>
  With \<open>re.MULTILINE\<close>, \<open>^\<close> matches at the start of a line and \<open>$\<close> at its
  end, and \<open>.\<close> never matches a line feed: a match is a whole line, from its first
  character. After \<open>Q\<close>, \<open>\d+\<close> takes digits greedily and gives them back one by one
  when the rest fails; \<open>.*?\<close> takes as little as possible, so group 2 starts at the
  first ASCII letter that has at least one more character after it.
\<close>

definition ascii_letter :: "nat \<Rightarrow> bool" where
  "ascii_letter c \<longleftrightarrow> (65 \<le> c \<and> c \<le> 90) \<or> (97 \<le> c \<and> c \<le> 122)"

fun first_letter_with_more :: "ustring \<Rightarrow> ustring option" where
  "first_letter_with_more [] = None"
| "first_letter_with_more [c] = None"
| "first_letter_with_more (c # d # cs) =
     (if ascii_letter c then Some (c # d # cs) else first_letter_with_more (d # cs))"

text \<open>\<open>backtrack_digits rest k\<close>: try \<open>k\<close> digits, then \<open>k - 1\<close>, down to one.\<close>

fun backtrack_digits :: "ustring \<Rightarrow> nat \<Rightarrow> (ustring \<times> ustring) option" where
  "backtrack_digits rest 0 = None"
| "backtrack_digits rest (Suc k) =
     (case first_letter_with_more (drop (Suc k) rest) of
        Some g2 \<Rightarrow> Some (take (Suc k) rest, g2)
      | None \<Rightarrow> backtrack_digits rest k)"

text \<open>The groups 1 and 2 of the match of a line, if it matches. \<open>Q\<close> is 81.\<close>

definition match_line :: "chardb \<Rightarrow> ustring \<Rightarrow> (ustring \<times> ustring) option" where
  "match_line db line =
     (case line of
        [] \<Rightarrow> None
      | c # rest \<Rightarrow>
          if c = 81
          then (case backtrack_digits rest (length (takeWhile (re_digit db) rest)) of
                  None \<Rightarrow> None
                | Some (ds, g2) \<Rightarrow> Some (c # ds, g2))
          else None)"

record re_match =
  m_start :: nat
  m_end :: nat
  group1 :: ustring
  group2 :: ustring

text \<open>The matches of the lines, \<open>pos\<close> being the offset of the first line in the text.\<close>

fun line_matches :: "chardb \<Rightarrow> nat \<Rightarrow> ustring list \<Rightarrow> re_match list" where
  "line_matches db pos [] = []"
| "line_matches db pos (line # lines) =
     (case match_line db line of
        None \<Rightarrow> []
      | Some (g1, g2) \<Rightarrow>
          [\<lparr> m_start = pos, m_end = pos + length line, group1 = g1, group2 = g2 \<rparr>])
     @ line_matches db (pos + length line + 1) lines"

definition finditer_q :: "chardb \<Rightarrow> ustring \<Rightarrow> re_match list" where
  "finditer_q db content = line_matches db 0 (split_chr NL content)"

text \<open>
  The body of \<open>for i, match in enumerate(matches)\<close>:
  \<^verbatim>\<open>start = match.end()\<close>
  \<^verbatim>\<open>end = matches[i+1].start() if i + 1 < len(matches) else len(content)\<close>
  \<^verbatim>\<open>body = content[start:end]\<close>
\<close>

definition match_body :: "ustring \<Rightarrow> re_match list \<Rightarrow> nat \<Rightarrow> ustring" where
  "match_body content matches i =
     slice content (m_end (matches ! i))
       (if i + 1 < length matches then m_start (matches ! (i + 1)) else length content)"

definition question_parse_questions ::
  "ustring \<Rightarrow> re_match list \<Rightarrow> nat \<Rightarrow> py_error + question" where
  "question_parse_questions content matches i =
     (case extract_fields_parse_questions (match_body content matches i) of
        Inl e \<Rightarrow> Inl e
      | Inr flds \<Rightarrow> Inr (make_question (group1 (matches ! i)) flds))"

text \<open>
  \<open>parse_questions(file_path)\<close>, called on the last line of the script. The input is
  \<open>None\<close> when the file does not exist, and the text \<open>f.read()\<close> otherwise.
\<close>

definition parse_questions :: "chardb \<Rightarrow> ustring option \<Rightarrow> run_result" where
  "parse_questions db file =
     (case file of
        None \<Rightarrow>
          \<lparr> stdout = [ustr ''Error: File not found at '' @ file_path],
            written = None, outcome = Finished \<rparr>
      | Some content \<Rightarrow>
          let matches = finditer_q db content in
          if matches = []
          then \<lparr> stdout = [ustr ''No matches found for question pattern.'',
                          ustr ''First 500 chars:'',
                          take 500 content],
                 written = None, outcome = Finished \<rparr>
          else (case collect (map (question_parse_questions content matches)
                          [0..<length matches]) of
                  Inl e \<Rightarrow> \<lparr> stdout = [], written = None, outcome = Uncaught e \<rparr>
                | Inr questions \<Rightarrow>
                    \<lparr> stdout = [join [NL] (swift_code questions)],
                      written = None, outcome = Finished \<rparr>))"


section \<open>The run of generate_puzzles.py\<close>

text \<open>
  The characters of the class \<open>[0-9...]\<close> in \<open>start_pattern\<close> and in the pattern of
  \<open>re.sub\<close>: the ASCII digits, the variation selector 65039, the enclosing keycap
  8419 and the keycap ten 128287.
\<close>

definition puzzle_digit :: "nat \<Rightarrow> bool" where
  "puzzle_digit c \<longleftrightarrow> (48 \<le> c \<and> c \<le> 57) \<or> c = 65039 \<or> c = 8419 \<or> c = 128287"

text \<open>
  \<^verbatim>\<open>start_pattern = r"(?:[0-9...]+)[^\n]*\n+Question:"\<close>
  The length of the match at the start of \<open>s\<close>, if there is one: a character of the
  class, the rest of its line, the line feeds after it (at least one), and \<open>Question:\<close>.
\<close>

definition start_match :: "ustring \<Rightarrow> nat option" where
  "start_match s =
     (case s of
        [] \<Rightarrow> None
      | c # cs \<Rightarrow>
          if puzzle_digit c
          then (let after = dropWhile (\<lambda>x. x \<noteq> NL) s;
                    rest = dropWhile (\<lambda>x. x = NL) after
                in if after \<noteq> [] \<and> prefix (ustr ''Question:'') rest
                   then Some (length s - length rest + 9)
                   else None)
          else None)"

text \<open>
  \<^verbatim>\<open>starts = [m.start() for m in re.finditer(start_pattern, content)]\<close>
  The scan goes from left to right and, after a match, goes on at its end: \<open>skip\<close>
  counts the characters of the last match that are still to pass.
\<close>

fun find_starts :: "nat \<Rightarrow> nat \<Rightarrow> ustring \<Rightarrow> nat list" where
  "find_starts pos skip [] = []"
| "find_starts pos skip (c # cs) =
     (if skip > 0 then find_starts (pos + 1) (skip - 1) cs
      else (case start_match (c # cs) of
              Some n \<Rightarrow> pos # find_starts (pos + 1) (n - 1) cs
            | None \<Rightarrow> find_starts (pos + 1) 0 cs))"

text \<open>
  \<^verbatim>\<open>starts.append(len(content))\<close>
  \<^verbatim>\<open>for i in range(len(starts) - 1): puzzle_blocks.append(content[starts[i]:starts[i+1]])\<close>
\<close>

definition puzzle_blocks :: "ustring \<Rightarrow> nat list \<Rightarrow> ustring list" where
  "puzzle_blocks content starts =
     (let starts' = starts @ [length content]
      in map (\<lambda>i. slice content (starts' ! i) (starts' ! (i + 1))) [0..<length starts' - 1])"

text \<open>\<open>re.search(pat, s)\<close> for a pattern that is plain text: the offset of its first occurrence.\<close>

fun str_find :: "ustring \<Rightarrow> ustring \<Rightarrow> nat option" where
  "str_find pat [] = (if pat = [] then Some 0 else None)"
| "str_find pat (c # cs) =
     (if prefix pat (c # cs) then Some 0 else map_option Suc (str_find pat cs))"

text \<open>
  \<^verbatim>\<open>q_match = re.search(r'Question:\s*(.*)', block)\<close>: group 1, if the text occurs. \<open>\s*\<close>
  passes all white space, line feeds too, and \<open>(.*)\<close> is the rest of the line reached.
\<close>

definition search_question :: "ustring \<Rightarrow> ustring option" where
  "search_question block =
     (case str_find (ustr ''Question:'') block of
        None \<Rightarrow> None
      | Some k \<Rightarrow> Some (takeWhile (\<lambda>c. c \<noteq> NL) (dropWhile isspace (drop (k + 9) block))))"

text \<open>What the body of the \<open>try\<close> statement extracts from one block.\<close>

record puzzle =
  p_title :: ustring
  p_description :: ustring
  initial_code :: ustring
  error_msg :: ustring
  correct_code :: ustring
  p_riddle :: ustring

text \<open>
  Lines 82 to 130 of the script: the title from the first line, the description from
  \<open>Question:\<close>, and the four sections between the lines \<open>Broken Code\<close>, \<open>Error\<close>,
  \<open>Correct Code\<close> and \<open>Riddle\<close>. The subscript \<open>lines[0]\<close> is the one step that
  has a failing branch, IndexError on an empty list; \<open>group\<close>, \<open>start\<close> and
  \<open>end\<close> are called on matches only, and a slice never fails. An exception is its
  class and its text \<open>str(e)\<close>.
\<close>

type_synonym exn = "py_error \<times> ustring"

definition extract_puzzle :: "nat \<Rightarrow> ustring \<Rightarrow> exn + puzzle" where
  "extract_puzzle i block =
     (case split_chr NL block of
        [] \<Rightarrow> Inl (IndexError, ustr ''list index out of range'')
      | line0 # more_lines \<Rightarrow> Inr
     (let raw_title = strip line0;
          clean_title = strip (dropWhile puzzle_digit raw_title);
          bc_start = str_find (NL # ustr ''Broken Code'' @ [NL]) block;
          error_start = str_find (NL # ustr ''Error'' @ [NL]) block;
          cc_start = str_find (NL # ustr ''Correct Code'' @ [NL]) block;
          riddle_start = str_find (NL # ustr ''Riddle'' @ [NL]) block
      in \<lparr> p_title = ustr ''Level '' @ str_nat (i + 1) @ ustr '': '' @ clean_title,
            p_description =
              (case search_question block of
                 Some g \<Rightarrow> strip g
               | None \<Rightarrow> ustr ''Fix the code.''),
            initial_code =
              (case bc_start of
                 None \<Rightarrow> []
               | Some b \<Rightarrow>
                   strip (slice block (b + 13)
                     (case error_start of
                        Some e \<Rightarrow> e
                      | None \<Rightarrow> (case cc_start of Some c \<Rightarrow> c | None \<Rightarrow> length block)))),
            error_msg =
              (case error_start of
                 Some e \<Rightarrow>
                   strip (slice block (e + 7)
                     (case cc_start of Some c \<Rightarrow> c | None \<Rightarrow> length block))
               | None \<Rightarrow> ustr ''Logic Error / Unexpected Behavior''),
            correct_code =
              (case cc_start of
                 None \<Rightarrow> []
               | Some c \<Rightarrow>
                   strip (slice block (c + 14)
                     (case riddle_start of Some r \<Rightarrow> r | None \<Rightarrow> length block))),
            p_riddle =
              (case riddle_start of
                 None \<Rightarrow> []
               | Some r \<Rightarrow> strip (drop (r + 8) block)) \<rparr>))"

text \<open>Lines 132 to 147: the text added to \<open>swift_code\<close> for block \<open>i\<close>.\<close>

definition emit_puzzle :: "nat \<Rightarrow> puzzle \<Rightarrow> ustring" where
  "emit_puzzle i p =
     ustr ''        Puzzle('' @ [NL]
     @ ustr ''            title: '' @ [DQUOTE] @ escape_swift_string (p_title p) @ [DQUOTE]
       @ ustr '','' @ [NL]
     @ ustr ''            description: '' @ [DQUOTE] @ escape_swift_string (p_description p)
       @ [DQUOTE] @ ustr '','' @ [NL]
     @ ustr ''            initialCode: '' @ [DQUOTE] @ escape_swift_string (initial_code p)
       @ [DQUOTE] @ ustr '','' @ [NL]
     @ ustr ''            correctCode: '' @ [DQUOTE] @ escape_swift_string (correct_code p)
       @ [DQUOTE] @ ustr '','' @ [NL]
     @ ustr ''            difficulty: 1,'' @ [NL]
     @ ustr ''            hints: ['' @ [DQUOTE] @ escape_swift_string (p_riddle p) @ [DQUOTE]
       @ ustr ''],'' @ [NL]
     @ ustr ''            storyFragment: '' @ [DQUOTE]
       @ ustr ''System Error: '' @ escape_swift_string (error_msg p) @ [DQUOTE]
       @ ustr '','' @ [NL]
     @ ustr ''            locked: '' @ (if i = 0 then ustr ''false'' else ustr ''true'') @ [NL]
     @ ustr ''        ),'' @ [NL]"

text \<open>
  The loop \<open>for i, block in enumerate(puzzle_blocks)\<close> with its \<open>try\<close> statement:
  \<^verbatim>\<open>try: <extract and append>\<close>
  \<^verbatim>\<open>except Exception as e: print(f"Error parsing block {i}: {e}")\<close>
  The extraction is a parameter of the loop, so that the handler can be stated for every
  extraction that raises; the script's own extraction is \<open>extract_puzzle\<close>, whose
  failing branch is never taken. The state is \<open>swift_code\<close> and the printed lines.
\<close>

fun blocks_loop ::
  "(nat \<Rightarrow> ustring \<Rightarrow> exn + puzzle) \<Rightarrow> nat \<Rightarrow> ustring list
     \<Rightarrow> ustring \<times> ustring list \<Rightarrow> ustring \<times> ustring list" where
  "blocks_loop extract i [] st = st"
| "blocks_loop extract i (block # blocks) st =
     (case st of (swift, out) \<Rightarrow>
        (case extract i block of
           Inr p \<Rightarrow> blocks_loop extract (i + 1) blocks (swift @ emit_puzzle i p, out)
         | Inl (cls, msg) \<Rightarrow>
             blocks_loop extract (i + 1) blocks
               (swift, out @ [ustr ''Error parsing block '' @ str_nat i @ ustr '': '' @ msg])))"

text \<open>
  \<open>parse_puzzles(filename)\<close> on the text of the file. After the file is written and the
  last message printed, the script evaluates \<open>len(matches)\<close>; no variable \<open>matches\<close>
  exists, which raises NameError.
\<close>

definition parse_puzzles_with ::
  "(nat \<Rightarrow> ustring \<Rightarrow> exn + puzzle) \<Rightarrow> ustring \<Rightarrow> run_result" where
  "parse_puzzles_with extract content =
     (let starts = find_starts 0 0 content in
      if starts = []
      then \<lparr> stdout = [ustr ''No start patterns found!''], written = None, outcome = Finished \<rparr>
      else
        (let blocks = puzzle_blocks content starts;
             out1 = [ustr ''Found '' @ str_nat (length blocks) @ ustr '' puzzle blocks.''];
             swift1 = ustr ''static let allPuzzles: [Puzzle] = ['' @ [NL]
         in case blocks_loop extract 0 blocks (swift1, out1) of
              (swift2, out2) \<Rightarrow>
                \<lparr> stdout = out2 @ [ustr ''Generated code written to puzzles_swift.txt''],
                  written = Some (swift2 @ ustr ''    ]''),
                  outcome = Uncaught NameError \<rparr>))"

definition parse_puzzles :: "ustring \<Rightarrow> run_result" where
  "parse_puzzles content = parse_puzzles_with extract_puzzle content"




text \<open>A text without any record, and two blocks, the second without \<open>Question:\<close>.\<close>

definition text1 :: ustring where
  "text1 = ustr ''Some notes'' @ [NL] @ ustr ''without any record'' @ [NL]"




section \<open>The loop of generate_questions_c_l3.py\<close>





text \<open>A span in which the label \<open>Error\<close> occurs twice, the first time with an empty body.\<close>

definition body5 :: "ustring list" where
  "body5 = [ustr ''Error'' @ [NL], ustr ''Correct Code'' @ [NL], ustr ''ok'' @ [NL],
            ustr ''Error'' @ [NL], ustr ''boom'' @ [NL]]"


section \<open>Properties of escaping\<close>

lemma str_replace_Nil [simp]: "str_replace old new [] = []"
  by (simp add: str_replace_def)

lemma str_replace_Cons:
  "str_replace old new (c # s) = (if c = old then new else [c]) @ str_replace old new s"
  by (simp add: str_replace_def)

lemma str_replace_append:
  "str_replace old new (s @ t) = str_replace old new s @ str_replace old new t"
  by (simp add: str_replace_def)

lemma escape_swift_string_Nil [simp]: "escape_swift_string [] = []"
  by (simp add: escape_swift_string_def)

lemma escape_swift_string_Cons:
  "escape_swift_string (c # s) = esc_chr c @ escape_swift_string s"
  by (simp add: escape_swift_string_def esc_chr_def str_replace_Cons str_replace_append)

lemma escape_swift_string_append:
  "escape_swift_string (s @ t) = escape_swift_string s @ escape_swift_string t"
  by (simp add: escape_swift_string_def str_replace_append)

lemma escape_swift_string_concat:
  "escape_swift_string s = concat (map esc_chr s)"
  by (induction s) (simp_all add: escape_swift_string_Cons)

lemma unescape_esc_chr:
  "unescape_swift_string (esc_chr c @ t) = c # unescape_swift_string t"
proof (cases t)
  case Nil
  then show ?thesis by (simp add: esc_chr_def)
next
  case (Cons d ds)
  then show ?thesis by (simp add: esc_chr_def)
qed

lemma unescape_escape: "unescape_swift_string (escape_swift_string s) = s"
  by (induction s) (simp_all add: escape_swift_string_Cons unescape_esc_chr)

text \<open>
  C2. Escaping replaces backslashes first, then double quotes, then line feeds, and
  unescaping the escaped text gives the original text back, for every string; so two
  different texts never have the same escaped form.
\<close>

theorem escape_roundtrip:
  "escape_swift_string s =
     str_replace NL [BSLASH, 110]
       (str_replace DQUOTE [BSLASH, DQUOTE] (str_replace BSLASH [BSLASH, BSLASH] s))
   \<and> unescape_swift_string (escape_swift_string s) = s
   \<and> ((escape_swift_string s = escape_swift_string t) = (s = t))"
proof -
  have "s = t" if "escape_swift_string s = escape_swift_string t"
  proof -
    have "unescape_swift_string (escape_swift_string s) =
          unescape_swift_string (escape_swift_string t)"
      using that by simp
    then show ?thesis by (simp add: unescape_escape)
  qed
  then have inj: "(escape_swift_string s = escape_swift_string t) = (s = t)"
    by blast
  have order: "escape_swift_string s =
     str_replace NL [BSLASH, 110]
       (str_replace DQUOTE [BSLASH, DQUOTE] (str_replace BSLASH [BSLASH, BSLASH] s))"
    by (simp only: escape_swift_string_def)
  from order unescape_escape [of s] inj show ?thesis
    by (intro conjI)
qed

text \<open>
  C10. A character other than the backslash, the double quote and the line feed is
  copied as it is, between the escaped text before it and the escaped text after it;
  so a carriage return (13), a tab (9) and a single quote (39) reach the literal
  unescaped.
\<close>

theorem escape_other_unchanged:
  "(c \<noteq> BSLASH \<and> c \<noteq> DQUOTE \<and> c \<noteq> NL \<longrightarrow>
      escape_swift_string (xs @ c # ys) = escape_swift_string xs @ c # escape_swift_string ys)
   \<and> escape_swift_string (xs @ 13 # ys) = escape_swift_string xs @ 13 # escape_swift_string ys
   \<and> escape_swift_string (xs @ 9 # ys) = escape_swift_string xs @ 9 # escape_swift_string ys
   \<and> escape_swift_string (xs @ 39 # ys) = escape_swift_string xs @ 39 # escape_swift_string ys"
  by (simp add: escape_swift_string_append escape_swift_string_Cons esc_chr_def)

theorem escape_other_unchanged_witness:
  "(65::nat) \<noteq> BSLASH \<and> (65::nat) \<noteq> DQUOTE \<and> (65::nat) \<noteq> NL
   \<and> escape_swift_string ([BSLASH, 13] @ 65 # [NL, 39, DQUOTE])
       = escape_swift_string [BSLASH, 13] @ 65 # escape_swift_string [NL, 39, DQUOTE]
   \<and> escape_swift_string ([BSLASH, 13] @ 65 # [NL, 39, DQUOTE])
       = [BSLASH, BSLASH, 13, 65, BSLASH, 110, 39, BSLASH, DQUOTE]"
  using escape_other_unchanged [of 65 "[BSLASH, 13]" "[NL, 39, DQUOTE]"]
  by (simp add: escape_swift_string_Cons esc_chr_def)

section \<open>Properties of the segmentation\<close>

lemma map_spans_segments:
  "map (\<lambda>i. slice xs (qs ! i) (end_idx qs n i)) [0..<length qs] = segments xs qs n"
proof (induction xs qs n rule: segments.induct)
  case (1 xs n)
  then show ?case by simp
next
  case (2 xs q n)
  then show ?case by (simp add: end_idx_def)
next
  case (3 xs q q' qs n)
  have "map (\<lambda>i. slice xs ((q # q' # qs) ! i) (end_idx (q # q' # qs) n i)) [0..<length (q # q' # qs)]
      = slice xs q q' # map (\<lambda>i. slice xs ((q' # qs) ! i) (end_idx (q' # qs) n i)) [0..<length (q' # qs)]"
    unfolding length_Cons[of q] map_upt_Suc
    by (simp add: end_idx_def del: upt_Suc)
  with 3 show ?case by simp
qed

lemma slice_append: "a \<le> b \<Longrightarrow> b \<le> c \<Longrightarrow> slice xs a b @ slice xs b c = slice xs a c"
proof -
  assume ab: "a \<le> b" and bc: "b \<le> c"
  define ys where "ys = take c xs"
  have tb: "take b xs = take b ys"
    using bc by (simp add: ys_def min_def)
  have "drop (a - length (take b ys)) (drop b ys) = drop b ys"
    using ab by (cases "b \<le> length ys") simp_all
  moreover have "drop a (take b ys @ drop b ys)
      = drop a (take b ys) @ drop (a - length (take b ys)) (drop b ys)"
    by (simp only: drop_append)
  ultimately have "drop a ys = drop a (take b ys) @ drop b ys"
    by (simp only: append_take_drop_id)
  then show ?thesis
    by (simp add: slice_def tb ys_def [symmetric])
qed

lemma concat_segments:
  "sorted_wrt (<) qs \<Longrightarrow> \<forall>q\<in>set qs. q \<le> n \<Longrightarrow> qs \<noteq> [] \<Longrightarrow> concat (segments xs qs n) = slice xs (hd qs) n"
proof (induction xs qs n rule: segments.induct)
  case (1 xs n)
  then show ?case by simp
next
  case (2 xs q n)
  then show ?case by simp
next
  case (3 xs q q' qs n)
  then show ?case by (simp add: slice_append)
qed

lemma slice_Cons_nth: "a < b \<Longrightarrow> a < length xs \<Longrightarrow> xs ! a # slice xs (Suc a) b = slice xs a b"
  using Cons_nth_drop_Suc [of a "take b xs"] by (simp add: slice_def)

lemma q_starts_sorted: "sorted_wrt (<) (q_starts db lines)"
  by (simp add: q_starts_def sorted_wrt_filter)

lemma set_q_starts:
  "set (q_starts db lines) = {i. i < length lines \<and> is_question_header db (lines ! i)}"
  by (auto simp add: q_starts_def)

lemma length_q_starts:
  "length (q_starts db lines) = length (filter (is_question_header db) lines)"
proof -
  have "filter (is_question_header db) (map (nth lines) [0..<length lines])
        = map (nth lines) (q_starts db lines)"
    by (simp add: filter_map q_starts_def comp_def)
  then show ?thesis by (simp add: map_nth)
qed

lemma hd_q_starts:
  assumes "q_starts db lines \<noteq> []"
  shows "drop (hd (q_starts db lines)) lines = dropWhile (\<lambda>l. \<not> is_question_header db l) lines"
proof -
  let ?qs = "q_starts db lines"
  let ?k = "hd ?qs"
  have mem: "?k \<in> set ?qs" using assms by simp
  then have k: "?k < length lines" "is_question_header db (lines ! ?k)"
    by (simp_all add: set_q_starts)
  have least: "\<not> is_question_header db (lines ! i)" if "i < ?k" for i
  proof
    assume "is_question_header db (lines ! i)"
    with that k have "i \<in> set ?qs" by (simp add: set_q_starts)
    moreover have "\<forall>j\<in>set ?qs. ?k \<le> j"
      using q_starts_sorted [of db lines] assms
      by (cases ?qs) (auto simp add: less_imp_le)
    ultimately show False using that by auto
  qed
  have "takeWhile (\<lambda>l. \<not> is_question_header db l) lines = take ?k lines"
    by (rule takeWhile_eq_take_P_nth) (use k least in auto)
  then show ?thesis
    using k by (simp add: dropWhile_eq_drop)
qed

lemma no_q_starts:
  assumes "q_starts db lines = []"
  shows "dropWhile (\<lambda>l. \<not> is_question_header db l) lines = []"
proof -
  have "\<forall>l\<in>set lines. \<not> is_question_header db l"
    using assms length_q_starts [of db lines] by (simp add: filter_empty_conv)
  then show ?thesis by simp
qed



lemma span_bounds:
  assumes "i < length (q_starts db lines)"
  shows "q_starts db lines ! i < length lines"
    and "q_starts db lines ! i < end_idx (q_starts db lines) (length lines) i"
proof -
  let ?qs = "q_starts db lines"
  have "?qs ! i \<in> set ?qs" using assms by simp
  then show lt: "?qs ! i < length lines" by (simp add: set_q_starts)
  show "?qs ! i < end_idx ?qs (length lines) i"
  proof (cases "i + 1 < length ?qs")
    case True
    then have "?qs ! i < ?qs ! (i + 1)"
      using q_starts_sorted [of db lines] by (simp add: sorted_wrt_nth_less)
    with True show ?thesis by (simp add: end_idx_def)
  next
    case False
    with lt show ?thesis by (simp add: end_idx_def)
  qed
qed

lemma record_span_slice:
  assumes "i < length (q_starts db lines)"
  shows "(case record_span lines (q_starts db lines) i of (h, body) \<Rightarrow> h # body)
         = slice lines (q_starts db lines ! i) (end_idx (q_starts db lines) (length lines) i)"
  using span_bounds [OF assms] by (simp add: record_span_def slice_Cons_nth)

lemma concat_record_spans:
  "concat (map (\<lambda>(h, body). h # body) (record_spans db lines))
   = dropWhile (\<lambda>l. \<not> is_question_header db l) lines"
proof -
  let ?qs = "q_starts db lines"
  have "map (\<lambda>(h, body). h # body) (record_spans db lines)
        = map (\<lambda>i. slice lines (?qs ! i) (end_idx ?qs (length lines) i)) [0..<length ?qs]"
    using record_span_slice [of _ db lines] by (simp add: record_spans_def)
  then have eq: "concat (map (\<lambda>(h, body). h # body) (record_spans db lines))
        = concat (segments lines ?qs (length lines))"
    by (simp only: map_spans_segments)
  show ?thesis
  proof (cases "?qs = []")
    case True
    then have "record_spans db lines = []" by (simp add: record_spans_def)
    then show ?thesis
      by (simp only: no_q_starts [OF True] list.map concat.simps)
  next
    case False
    have "\<forall>q\<in>set ?qs. q \<le> length lines" by (simp add: set_q_starts)
    then have "concat (segments lines ?qs (length lines)) = slice lines (hd ?qs) (length lines)"
      using q_starts_sorted False by (simp add: concat_segments)
    with eq hd_q_starts [OF False] show ?thesis by (simp add: slice_def)
  qed
qed

lemma split_chr_nonempty: "split_chr sep s \<noteq> []"
  by (induction s) (auto split: list.splits)

lemma length_join_Cons:
  "length (join [NL] (l # ls)) = length l + (if ls = [] then 0 else 1 + length (join [NL] ls))"
  by (cases ls) simp_all

lemma length_line_matches:
  "length (line_matches db pos ls) = length (filter (\<lambda>l. match_line db l \<noteq> None) ls)"
  by (induction ls arbitrary: pos) (auto split: option.splits)

lemma line_matches_bounds:
  "m \<in> set (line_matches db pos ls) \<Longrightarrow>
   pos \<le> m_start m \<and> m_start m \<le> m_end m \<and> m_end m \<le> pos + length (join [NL] ls)"
proof (induction ls arbitrary: pos)
  case Nil
  then show ?case by simp
next
  case (Cons l ls)
  show ?case
  proof (cases "m \<in> set (line_matches db (pos + length l + 1) ls)")
    case True
    then have "ls \<noteq> []" by auto
    with Cons.IH [OF True] show ?thesis by (simp add: length_join_Cons)
  next
    case False
    with Cons.prems have "m_start m = pos \<and> m_end m = pos + length l"
      by (auto split: option.splits)
    then show ?thesis by (simp add: length_join_Cons)
  qed
qed

lemma line_matches_sorted:
  "sorted_wrt (\<lambda>a b. m_end a < m_start b) (line_matches db pos ls)"
proof (induction ls arbitrary: pos)
  case Nil
  then show ?case by simp
next
  case (Cons l ls)
  have "\<forall>b\<in>set (line_matches db (pos + length l + 1) ls). pos + length l < m_start b"
    using line_matches_bounds [of _ db "pos + length l + 1" ls] by fastforce
  with Cons [of "pos + length l + 1"] show ?case
    by (auto simp add: sorted_wrt_append split: option.splits)
qed

lemma join_Cons_Cons: "join sep ((c # a) # ls) = c # join sep (a # ls)"
  by (cases ls) simp_all

lemma join_Nil_Cons: "ls \<noteq> [] \<Longrightarrow> join sep ([] # ls) = sep @ join sep ls"
  by (cases ls) simp_all

lemma join_split_chr: "join [NL] (split_chr NL s) = s"
proof (induction s)
  case Nil
  then show ?case by simp
next
  case (Cons c s)
  obtain w ws where w: "split_chr NL s = w # ws"
    using split_chr_nonempty [of NL s] by (cases "split_chr NL s") auto
  with Cons show ?case
    by (auto simp add: join_Cons_Cons join_Nil_Cons simp del: join.simps)
qed

lemma finditer_q_bounds:
  assumes "m \<in> set (finditer_q db content)"
  shows "m_start m \<le> m_end m \<and> m_end m \<le> length content"
  using line_matches_bounds [of m db 0 "split_chr NL content"] assms
  by (simp add: finditer_q_def join_split_chr)

lemma finditer_q_sorted:
  "sorted_wrt (\<lambda>a b. m_end a < m_start b) (finditer_q db content)"
  by (simp add: finditer_q_def line_matches_sorted)

lemma finditer_q_starts_sorted: "sorted_wrt (<) (map m_start (finditer_q db content))"
proof -
  have "sorted_wrt (\<lambda>a b. m_start a < m_start b) (finditer_q db content)"
  proof (rule sorted_wrt_mono_rel [OF _ finditer_q_sorted])
    fix a b
    assume "a \<in> set (finditer_q db content)" and "m_end a < m_start b"
    with finditer_q_bounds [of a db content] show "m_start a < m_start b" by simp
  qed
  then show ?thesis by (simp add: sorted_wrt_map)
qed

lemma match_span:
  assumes "i < length (finditer_q db content)"
  shows "slice content (m_start (finditer_q db content ! i)) (m_end (finditer_q db content ! i))
           @ match_body content (finditer_q db content) i
         = slice content (m_start (finditer_q db content ! i))
             (end_idx (map m_start (finditer_q db content)) (length content) i)"
proof -
  let ?ms = "finditer_q db content"
  have mem: "?ms ! i \<in> set ?ms" using assms by simp
  have le1: "m_start (?ms ! i) \<le> m_end (?ms ! i)" "m_end (?ms ! i) \<le> length content"
    using finditer_q_bounds [OF mem] by simp_all
  have le2: "m_end (?ms ! i) \<le> end_idx (map m_start ?ms) (length content) i"
  proof (cases "i + 1 < length ?ms")
    case True
    then have "m_end (?ms ! i) < m_start (?ms ! (i + 1))"
      using finditer_q_sorted [of db content] by (simp add: sorted_wrt_iff_nth_less)
    with True show ?thesis by (simp add: end_idx_def)
  next
    case False
    with le1 show ?thesis by (simp add: end_idx_def)
  qed
  have "match_body content ?ms i
      = slice content (m_end (?ms ! i)) (end_idx (map m_start ?ms) (length content) i)"
    by (simp add: match_body_def end_idx_def)
  with slice_append [OF le1(1) le2] show ?thesis by simp
qed

lemma concat_match_spans:
  "concat (map (\<lambda>i. slice content (m_start (finditer_q db content ! i))
                        (m_end (finditer_q db content ! i))
                      @ match_body content (finditer_q db content) i)
             [0..<length (finditer_q db content)])
   = (if finditer_q db content = [] then []
      else drop (m_start (hd (finditer_q db content))) content)"
proof -
  let ?ms = "finditer_q db content"
  let ?qs = "map m_start ?ms"
  have "map (\<lambda>i. slice content (m_start (?ms ! i)) (m_end (?ms ! i)) @ match_body content ?ms i)
            [0..<length ?ms]
        = map (\<lambda>i. slice content (?qs ! i) (end_idx ?qs (length content) i)) [0..<length ?qs]"
    using match_span [of _ db content] by simp
  then have eq: "concat (map (\<lambda>i. slice content (m_start (?ms ! i)) (m_end (?ms ! i))
                      @ match_body content ?ms i) [0..<length ?ms])
        = concat (segments content ?qs (length content))"
    by (simp only: map_spans_segments)
  show ?thesis
  proof (cases "?ms = []")
    case True
    then show ?thesis by simp
  next
    case False
    have "\<forall>q\<in>set ?qs. q \<le> length content"
      using finditer_q_bounds [of _ db content] by fastforce
    then have "concat (segments content ?qs (length content)) = slice content (hd ?qs) (length content)"
      using finditer_q_starts_sorted [of db content] False by (simp add: concat_segments)
    with eq False show ?thesis by (simp add: slice_def hd_map)
  qed
qed


lemma find_starts_bounds:
  "p \<in> set (find_starts pos skip s) \<Longrightarrow> pos \<le> p \<and> p < pos + length s"
proof (induction s arbitrary: pos skip)
  case Nil
  then show ?case by simp
next
  case (Cons c cs)
  show ?case
  proof (cases "p \<in> set (find_starts (pos + 1) (skip - 1) cs)
      \<or> p \<in> set (find_starts (pos + 1) 0 cs)
      \<or> (\<exists>n. p \<in> set (find_starts (pos + 1) (n - 1) cs))")
    case True
    then obtain k where "p \<in> set (find_starts (pos + 1) k cs)" by auto
    from Cons.IH [OF this] show ?thesis by simp
  next
    case False
    with Cons.prems have "p = pos" by (auto split: if_splits option.splits)
    then show ?thesis by simp
  qed
qed

lemma find_starts_sorted: "sorted_wrt (<) (find_starts pos skip s)"
proof (induction s arbitrary: pos skip)
  case Nil
  then show ?case by simp
next
  case (Cons c cs)
  have "\<forall>p\<in>set (find_starts (pos + 1) k cs). pos < p" for k
    using find_starts_bounds [of _ "pos + 1" k cs] by fastforce
  with Cons show ?case by (auto split: option.splits)
qed

lemma puzzle_blocks_segments:
  "puzzle_blocks content starts = segments content starts (length content)"
proof -
  have "slice content ((starts @ [length content]) ! i) ((starts @ [length content]) ! (i + 1))
      = slice content (starts ! i) (end_idx starts (length content) i)"
    if "i < length starts" for i
    using that by (auto simp add: end_idx_def nth_append)
  then have "puzzle_blocks content starts
      = map (\<lambda>i. slice content (starts ! i) (end_idx starts (length content) i)) [0..<length starts]"
    by (simp add: puzzle_blocks_def Let_def)
  then show ?thesis by (simp only: map_spans_segments)
qed

lemma length_segments: "length (segments xs qs n) = length qs"
  by (induction xs qs n rule: segments.induct) simp_all

lemma concat_puzzle_blocks:
  "concat (puzzle_blocks doc (find_starts 0 0 doc))
   = (if find_starts 0 0 doc = [] then [] else drop (hd (find_starts 0 0 doc)) doc)"
proof (cases "find_starts 0 0 doc = []")
  case True
  then show ?thesis by (simp add: puzzle_blocks_segments)
next
  case False
  have "\<forall>q\<in>set (find_starts 0 0 doc). q \<le> length doc"
    using find_starts_bounds [of _ 0 0 doc] by fastforce
  then have "concat (segments doc (find_starts 0 0 doc) (length doc))
      = slice doc (hd (find_starts 0 0 doc)) (length doc)"
    using find_starts_sorted [of 0 0 doc] False by (simp add: concat_segments)
  with False show ?thesis by (simp add: puzzle_blocks_segments slice_def)
qed

text \<open>
  C1. Each script finds its boundaries in document order and makes one span per boundary,
  from the boundary up to, not including, the next one, the last span up to the end of
  the document; the spans one after the other give back the document from the first
  boundary on, and only the text before it is dropped.
  In parser2.py the boundaries are the indices of the header lines (\<open>q_starts\<close>, strictly
  increasing), and a span is a header line followed by its body lines. In
  parse_questions.py they are the matches of the header pattern, one for each line that
  matches, and a span is the text of the match followed by \<open>body\<close>. In
  generate_puzzles.py they are the offsets \<open>starts\<close>, and the spans are the blocks.
\<close>

theorem segmentation_spans:
  "length (record_spans db lines) = length (filter (is_question_header db) lines)
   \<and> sorted_wrt (<) (q_starts db lines)
   \<and> set (q_starts db lines) = {i. i < length lines \<and> is_question_header db (lines ! i)}
   \<and> (\<forall>i < length (q_starts db lines).
         (case record_spans db lines ! i of (h, body) \<Rightarrow> h # body)
         = slice lines (q_starts db lines ! i)
             (if i + 1 < length (q_starts db lines) then q_starts db lines ! (i + 1)
              else length lines))
   \<and> concat (map (\<lambda>(h, body). h # body) (record_spans db lines))
       = dropWhile (\<lambda>l. \<not> is_question_header db l) lines
   \<and> length (finditer_q db content)
       = length (filter (\<lambda>l. match_line db l \<noteq> None) (split_chr NL content))
   \<and> sorted_wrt (<) (map m_start (finditer_q db content))
   \<and> (\<forall>i < length (finditer_q db content).
         slice content (m_start (finditer_q db content ! i)) (m_end (finditer_q db content ! i))
           @ match_body content (finditer_q db content) i
         = slice content (m_start (finditer_q db content ! i))
             (if i + 1 < length (finditer_q db content)
              then m_start (finditer_q db content ! (i + 1)) else length content))
   \<and> concat (map (\<lambda>i. slice content (m_start (finditer_q db content ! i))
                          (m_end (finditer_q db content ! i))
                        @ match_body content (finditer_q db content) i)
               [0..<length (finditer_q db content)])
       = (if finditer_q db content = [] then []
          else drop (m_start (hd (finditer_q db content))) content)
   \<and> sorted_wrt (<) (find_starts 0 0 doc)
   \<and> length (puzzle_blocks doc (find_starts 0 0 doc)) = length (find_starts 0 0 doc)
   \<and> (\<forall>i < length (find_starts 0 0 doc).
         puzzle_blocks doc (find_starts 0 0 doc) ! i
         = slice doc (find_starts 0 0 doc ! i)
             (if i + 1 < length (find_starts 0 0 doc) then find_starts 0 0 doc ! (i + 1)
              else length doc))
   \<and> concat (puzzle_blocks doc (find_starts 0 0 doc))
       = (if find_starts 0 0 doc = [] then [] else drop (hd (find_starts 0 0 doc)) doc)"
proof (intro conjI allI impI)
  show "length (record_spans db lines) = length (filter (is_question_header db) lines)"
    by (simp add: record_spans_def length_q_starts)
  show "sorted_wrt (<) (q_starts db lines)" by (rule q_starts_sorted)
  show "set (q_starts db lines) = {i. i < length lines \<and> is_question_header db (lines ! i)}"
    by (rule set_q_starts)
  show "concat (map (\<lambda>(h, body). h # body) (record_spans db lines))
       = dropWhile (\<lambda>l. \<not> is_question_header db l) lines"
    by (rule concat_record_spans)
  show "length (finditer_q db content)
       = length (filter (\<lambda>l. match_line db l \<noteq> None) (split_chr NL content))"
    by (simp add: finditer_q_def length_line_matches)
  show "sorted_wrt (<) (map m_start (finditer_q db content))"
    by (rule finditer_q_starts_sorted)
  show "concat (map (\<lambda>i. slice content (m_start (finditer_q db content ! i))
                          (m_end (finditer_q db content ! i))
                        @ match_body content (finditer_q db content) i)
               [0..<length (finditer_q db content)])
       = (if finditer_q db content = [] then []
          else drop (m_start (hd (finditer_q db content))) content)"
    by (rule concat_match_spans)
  show "sorted_wrt (<) (find_starts 0 0 doc)" by (rule find_starts_sorted)
  show "length (puzzle_blocks doc (find_starts 0 0 doc)) = length (find_starts 0 0 doc)"
    by (simp add: puzzle_blocks_segments length_segments)
  show "concat (puzzle_blocks doc (find_starts 0 0 doc))
       = (if find_starts 0 0 doc = [] then [] else drop (hd (find_starts 0 0 doc)) doc)"
    by (rule concat_puzzle_blocks)
next
  fix i assume i: "i < length (q_starts db lines)"
  then have "record_spans db lines ! i = record_span lines (q_starts db lines) i"
    by (simp add: record_spans_def)
  with record_span_slice [OF i]
  show "(case record_spans db lines ! i of (h, body) \<Rightarrow> h # body)
         = slice lines (q_starts db lines ! i)
             (if i + 1 < length (q_starts db lines) then q_starts db lines ! (i + 1)
              else length lines)"
    by (simp add: end_idx_def)
next
  fix i assume i: "i < length (finditer_q db content)"
  from match_span [OF i] i
  show "slice content (m_start (finditer_q db content ! i)) (m_end (finditer_q db content ! i))
           @ match_body content (finditer_q db content) i
         = slice content (m_start (finditer_q db content ! i))
             (if i + 1 < length (finditer_q db content)
              then m_start (finditer_q db content ! (i + 1)) else length content)"
    by (simp add: end_idx_def)
next
  fix i assume i: "i < length (find_starts 0 0 doc)"
  then show "puzzle_blocks doc (find_starts 0 0 doc) ! i
         = slice doc (find_starts 0 0 doc ! i)
             (if i + 1 < length (find_starts 0 0 doc) then find_starts 0 0 doc ! (i + 1)
              else length doc)"
    by (simp add: puzzle_blocks_def Let_def nth_append)
qed

theorem segmentation_spans_witness:
  "length (record_spans ascii_db doc1) = 2
   \<and> q_starts ascii_db doc1 = [1, 3]
   \<and> (case record_spans ascii_db doc1 ! 0 of (h, body) \<Rightarrow> h # body) = slice doc1 1 3
   \<and> (case record_spans ascii_db doc1 ! 1 of (h, body) \<Rightarrow> h # body) = slice doc1 3 5
   \<and> concat (map (\<lambda>(h, body). h # body) (record_spans ascii_db doc1)) = drop 1 doc1
   \<and> map m_start (finditer_q ascii_db (concat doc1)) = [6, 28]
   \<and> map m_end (finditer_q ascii_db (concat doc1)) = [15, 37]
   \<and> slice (concat doc1) 6 15 @ match_body (concat doc1) (finditer_q ascii_db (concat doc1)) 0
       = slice (concat doc1) 6 28
   \<and> find_starts 0 0 doc2 = [6, 29]
   \<and> puzzle_blocks doc2 (find_starts 0 0 doc2) ! 0 = slice doc2 6 29
   \<and> concat (puzzle_blocks doc2 (find_starts 0 0 doc2)) = drop 6 doc2"
proof -
  have q: "q_starts ascii_db doc1 = [1, 3]" by code_simp
  have n: "length doc1 = 5" by (simp add: doc1_def)
  have f: "length (filter (is_question_header ascii_db) doc1) = 2" by code_simp
  have d: "dropWhile (\<lambda>l. \<not> is_question_header ascii_db l) doc1 = drop 1 doc1" by code_simp
  note t = segmentation_spans [of ascii_db doc1 "concat doc1" doc2]
  from t have a: "\<forall>i < length (q_starts ascii_db doc1).
         (case record_spans ascii_db doc1 ! i of (h, body) \<Rightarrow> h # body)
         = slice doc1 (q_starts ascii_db doc1 ! i)
             (if i + 1 < length (q_starts ascii_db doc1) then q_starts ascii_db doc1 ! (i + 1)
              else length doc1)"
    by (elim conjE)
  from a [rule_format, of 0] have s0:
    "(case record_spans ascii_db doc1 ! 0 of (h, body) \<Rightarrow> h # body) = slice doc1 1 3"
    by (simp add: q)
  from a [rule_format, of 1] have s1:
    "(case record_spans ascii_db doc1 ! 1 of (h, body) \<Rightarrow> h # body) = slice doc1 3 5"
    by (simp add: q n)
  from t have l: "length (record_spans ascii_db doc1) = length (filter (is_question_header ascii_db) doc1)"
    by (elim conjE)
  from t have c: "concat (map (\<lambda>(h, body). h # body) (record_spans ascii_db doc1))
       = dropWhile (\<lambda>l. \<not> is_question_header ascii_db l) doc1"
    by (elim conjE)
  have m: "finditer_q ascii_db (concat doc1)
      = [\<lparr>m_start = 6, m_end = 15, group1 = ustr ''Q1'', group2 = ustr ''Typo''\<rparr>,
         \<lparr>m_start = 28, m_end = 37, group1 = ustr ''Q2'', group2 = ustr ''Loop''\<rparr>]"
    by (simp add: finditer_q_def doc1_def ustr_def match_line_def ascii_db_def ascii_letter_def)
  from t have b: "\<forall>i < length (finditer_q ascii_db (concat doc1)).
         slice (concat doc1) (m_start (finditer_q ascii_db (concat doc1) ! i))
             (m_end (finditer_q ascii_db (concat doc1) ! i))
           @ match_body (concat doc1) (finditer_q ascii_db (concat doc1)) i
         = slice (concat doc1) (m_start (finditer_q ascii_db (concat doc1) ! i))
             (if i + 1 < length (finditer_q ascii_db (concat doc1))
              then m_start (finditer_q ascii_db (concat doc1) ! (i + 1))
              else length (concat doc1))"
    by (elim conjE)
  from b [rule_format, of 0] have s2:
    "slice (concat doc1) 6 15 @ match_body (concat doc1) (finditer_q ascii_db (concat doc1)) 0
       = slice (concat doc1) 6 28"
    by (simp add: m)
  have p: "find_starts 0 0 doc2 = [6, 29]"
    by (simp add: doc2_def ustr_def start_match_def puzzle_digit_def)
  from t have e: "\<forall>i < length (find_starts 0 0 doc2).
         puzzle_blocks doc2 (find_starts 0 0 doc2) ! i
         = slice doc2 (find_starts 0 0 doc2 ! i)
             (if i + 1 < length (find_starts 0 0 doc2) then find_starts 0 0 doc2 ! (i + 1)
              else length doc2)"
    by (elim conjE)
  from e [rule_format, of 0] have s3:
    "puzzle_blocks doc2 (find_starts 0 0 doc2) ! 0 = slice doc2 6 29"
    by (simp add: p)
  from t have "concat (puzzle_blocks doc2 (find_starts 0 0 doc2))
       = (if find_starts 0 0 doc2 = [] then [] else drop (hd (find_starts 0 0 doc2)) doc2)"
    by (elim conjE)
  then have s4: "concat (puzzle_blocks doc2 (find_starts 0 0 doc2)) = drop 6 doc2"
    by (simp add: p)
  have m1: "map m_start (finditer_q ascii_db (concat doc1)) = [6, 28]"
    and m2: "map m_end (finditer_q ascii_db (concat doc1)) = [15, 37]"
    by (simp_all add: m)
  from l f q s0 s1 c d m1 m2 s2 p s3 s4 show ?thesis by (simp only: simp_thms)
qed


section \<open>Properties of the field loop\<close>

lemma distinct_keys: "distinct (map fst headers_map)"
  by (simp add: headers_map_def ustr_def)

lemma distinct_roles: "distinct (map snd headers_map)"
  by (simp add: headers_map_def ustr_def)

lemma keys_nonempty: "(h, r) \<in> set headers_map \<Longrightarrow> h \<noteq> []"
  by (auto simp add: headers_map_def ustr_def)

lemma map_of_headers: "map_of headers_map h = Some r \<longleftrightarrow> (h, r) \<in> set headers_map"
  using distinct_keys by simp

lemma role_inj:
  "(h, r) \<in> set headers_map \<Longrightarrow> (h', r) \<in> set headers_map \<Longrightarrow> h = h'"
proof -
  assume a: "(h, r) \<in> set headers_map" and b: "(h', r) \<in> set headers_map"
  from distinct_roles have "inj_on snd (set headers_map)" by (simp add: distinct_map)
  from inj_onD [OF this _ a b] show "h = h'" by simp
qed

lemma key_unique:
  "(h, r) \<in> set headers_map \<Longrightarrow> (h, r') \<in> set headers_map \<Longrightarrow> r = r'"
  using distinct_keys by (rule eq_key_imp_eq_value)

lemma find_Some_mem: "find P xs = Some x \<Longrightarrow> x \<in> set xs \<and> P x"
  by (induction xs) (auto split: if_splits)

lemma find_header_Some:
  assumes "find_header test s = Some h"
  shows "(\<exists>r. (h, r) \<in> set headers_map) \<and> test h s"
proof -
  from assms have "h \<in> set (map fst headers_map) \<and> test h s"
    unfolding find_header_def by (rule find_Some_mem)
  then show ?thesis by auto
qed


lemma store_field_None [simp]: "store_field None c f = Inr f"
  by (simp add: store_field_def)

lemma store_field_key:
  "(h, r) \<in> set headers_map \<Longrightarrow>
   store_field (Some h) c f = Inr (f(r \<mapsto> strip (join [NL] c)))"
  using keys_nonempty [of h r] map_of_headers [of h r] by (simp add: store_field_def)

lemma truthy_key: "(h, r) \<in> set headers_map \<Longrightarrow> truthy (Some h)"
  using keys_nonempty [of h r] by (simp add: truthy_def)

lemma ok_cur_None [simp]: "ok_cur None"
  by (simp add: ok_cur_def)

lemma ok_cur_key: "(h, r) \<in> set headers_map \<Longrightarrow> ok_cur (Some h)"
  by (force simp add: ok_cur_def)

lemma ok_cur_cases:
  assumes "ok_cur cur"
  obtains "cur = None" | h r where "cur = Some h" "(h, r) \<in> set headers_map"
  using assms by (auto simp add: ok_cur_def split: option.splits)

lemma fields_step_label:
  assumes "find_header test (strip line) = Some h'" and "ok_cur cur"
  shows "\<exists>f'. fields_step test keep (cur, c, f) line = Inr (Some h', [], f')
          \<and> (cur = None \<longrightarrow> f' = f)
          \<and> (\<forall>h r. cur = Some h \<and> (h, r) \<in> set headers_map \<longrightarrow> f' = f(r \<mapsto> strip (join [NL] c)))"
  using assms(2)
proof (cases rule: ok_cur_cases)
  case 1
  with assms(1) show ?thesis by (simp add: fields_step_def)
next
  case (2 h r)
  with assms(1) show ?thesis
    by (auto simp add: fields_step_def store_field_key dest: key_unique)
qed

lemma fields_step_other:
  assumes "find_header test (strip line) = None"
  shows "fields_step test keep (cur, c, f) line =
           Inr (if truthy cur then (cur, c @ [keep line], f) else (cur, c, f))"
  using assms by (simp add: fields_step_def)

lemma fields_loop_append:
  "fields_loop test keep st (xs @ ys) =
     (case fields_loop test keep st xs of Inl e \<Rightarrow> Inl e | Inr st' \<Rightarrow> fields_loop test keep st' ys)"
  by (induction xs arbitrary: st) (simp_all split: sum.splits)

lemma fields_loop_total:
  "ok_cur cur \<Longrightarrow> \<exists>cur' c' f'. fields_loop test keep (cur, c, f) ls = Inr (cur', c', f') \<and> ok_cur cur'"
proof (induction ls arbitrary: cur c f)
  case Nil
  then show ?case by simp
next
  case (Cons l ls)
  show ?case
  proof (cases "find_header test (strip l)")
    case None
    from fields_step_other [OF None, of keep cur c f] Cons show ?thesis
      by (auto split: if_splits)
  next
    case (Some h')
    then have "ok_cur (Some h')" using find_header_Some [OF Some] by (auto intro: ok_cur_key)
    with fields_step_label [OF Some Cons.prems, of keep c f] Cons.IH show ?thesis
      by auto
  qed
qed


lemma fields_loop_content:
  assumes "(h, r) \<in> set headers_map"
    and "\<forall>l\<in>set ls. find_header test (strip l) = None"
  shows "fields_loop test keep (Some h, c, f) ls = Inr (Some h, c @ map keep ls, f)"
  using assms(2)
proof (induction ls arbitrary: c)
  case Nil
  then show ?case by simp
next
  case (Cons l ls)
  then have "find_header test (strip l) = None" by simp
  from fields_step_other [OF this, of keep "Some h" c f] truthy_key [OF assms(1)] Cons
  show ?case by simp
qed

text \<open>Lines that are not label lines of \<open>h\<close> leave the entry of its role as it was.\<close>

lemma fields_loop_untouched:
  assumes hr: "(h, r) \<in> set headers_map"
    and "ok_cur cur" and "cur \<noteq> Some h"
    and "\<forall>l\<in>set ls. find_header test (strip l) \<noteq> Some h"
  shows "\<exists>cur' c' f'. fields_loop test keep (cur, c, f) ls = Inr (cur', c', f')
           \<and> ok_cur cur' \<and> cur' \<noteq> Some h \<and> f' r = f r"
  using assms(2-)
proof (induction ls arbitrary: cur c f)
  case Nil
  then show ?case by simp
next
  case (Cons l ls)
  show ?case
  proof (cases "find_header test (strip l)")
    case None
    from fields_step_other [OF None, of keep cur c f] Cons.IH [of cur _ f] Cons.prems
    show ?thesis by (auto split: if_splits)
  next
    case (Some h')
    from Some Cons.prems have ne: "Some h' \<noteq> Some h" by auto
    have ok: "ok_cur (Some h')" using find_header_Some [OF Some] by (auto intro: ok_cur_key)
    from fields_step_label [OF Some Cons.prems(1), of keep c f]
    obtain f' where st: "fields_step test keep (cur, c, f) l = Inr (Some h', [], f')"
      and n: "cur = None \<longrightarrow> f' = f"
      and k: "\<forall>h r. cur = Some h \<and> (h, r) \<in> set headers_map \<longrightarrow> f' = f(r \<mapsto> strip (join [NL] c))"
      by blast
    have "f' r = f r"
      using Cons.prems(1)
    proof (cases rule: ok_cur_cases)
      case 1
      with n show ?thesis by simp
    next
      case (2 h0 r0)
      with k have "f' = f(r0 \<mapsto> strip (join [NL] c))" by blast
      moreover have "r0 \<noteq> r" using role_inj [of h0 r h] 2 hr Cons.prems(2) by auto
      ultimately show ?thesis by simp
    qed
    moreover from Cons.IH [OF ok ne, of "[]" f'] Cons.prems(3)
    obtain cur' c' f'' where "fields_loop test keep (Some h', [], f') ls = Inr (cur', c', f'')"
      "ok_cur cur'" "cur' \<noteq> Some h" "f'' r = f' r" by auto
    ultimately show ?thesis using st by simp
  qed
qed

lemma store_field_untouched:
  assumes hr: "(h, r) \<in> set headers_map" and "ok_cur cur" and "cur \<noteq> Some h"
  shows "\<exists>f'. store_field cur c f = Inr f' \<and> f' r = f r"
  using assms(2)
proof (cases rule: ok_cur_cases)
  case 1
  then show ?thesis by simp
next
  case (2 h0 r0)
  then have "r0 \<noteq> r" using role_inj [of h0 r h] hr assms(3) by auto
  with 2 show ?thesis by (simp add: store_field_key)
qed

lemma extract_fields_total: "\<exists>m. extract_fields test keep body = Inr m"
proof -
  from fields_loop_total [of None test keep "[]" Map.empty body]
  obtain cur' c' f' where l: "fields_loop test keep (None, [], Map.empty) body = Inr (cur', c', f')"
    and ok: "ok_cur cur'" by auto
  from ok have "\<exists>m. store_field cur' c' f' = Inr m"
    by (cases rule: ok_cur_cases) (auto simp add: store_field_key)
  with l show ?thesis by (simp add: extract_fields_def)
qed

lemma extract_fields_absent:
  assumes hr: "(h, r) \<in> set headers_map"
    and "\<forall>l\<in>set body. find_header test (strip l) \<noteq> Some h"
  shows "\<exists>m. extract_fields test keep body = Inr m \<and> m r = None"
proof -
  from fields_loop_untouched [OF hr _ _ assms(2), of None keep "[]" Map.empty]
  obtain cur' c' f' where l: "fields_loop test keep (None, [], Map.empty) body = Inr (cur', c', f')"
    and ok: "ok_cur cur'" "cur' \<noteq> Some h" and "f' r = None" by auto
  with store_field_untouched [OF hr ok, of c' f'] show ?thesis
    by (auto simp add: extract_fields_def)
qed

lemma extract_fields_between:
  assumes hr: "(h, r) \<in> set headers_map"
    and hl: "find_header test (strip hl) = Some h"
    and content: "\<forall>l\<in>set content. find_header test (strip l) = None"
    and nxt: "rest = [] \<or> find_header test (strip (hd rest)) \<noteq> None"
    and last: "\<forall>l\<in>set rest. find_header test (strip l) \<noteq> Some h"
  shows "\<exists>m. extract_fields test keep (pre @ [hl] @ content @ rest) = Inr m
           \<and> m r = Some (strip (join [NL] (map keep content)))"
proof -
  let ?text = "strip (join [NL] (map keep content))"
  from fields_loop_total [of None test keep "[]" Map.empty pre]
  obtain cur1 c1 f1 where l1: "fields_loop test keep (None, [], Map.empty) pre = Inr (cur1, c1, f1)"
    and ok1: "ok_cur cur1" by auto
  from fields_step_label [OF hl ok1, of keep c1 f1]
  obtain f2 where l2: "fields_step test keep (cur1, c1, f1) hl = Inr (Some h, [], f2)" by blast
  from fields_loop_content [OF hr content, of keep "[]" f2]
  have l3: "fields_loop test keep (Some h, [], f2) content = Inr (Some h, map keep content, f2)"
    by simp
  have l123: "fields_loop test keep (None, [], Map.empty) (pre @ [hl] @ content @ rest)
      = fields_loop test keep (Some h, map keep content, f2) rest"
    using l1 l2 l3 by (simp add: fields_loop_append)
  show ?thesis
  proof (cases rest)
    case Nil
    with l123 show ?thesis by (simp add: extract_fields_def store_field_key [OF hr])
  next
    case (Cons l' rest')
    with nxt obtain h' where h': "find_header test (strip l') = Some h'" by auto
    with last Cons have ne: "Some h' \<noteq> Some h" by auto
    have ok: "ok_cur (Some h')" using find_header_Some [OF h'] by (auto intro: ok_cur_key)
    from fields_step_label [OF h' ok_cur_key [OF hr], of keep "map keep content" f2] hr
    have st: "fields_step test keep (Some h, map keep content, f2) l'
        = Inr (Some h', [], f2(r \<mapsto> ?text))" by auto
    from fields_loop_untouched [OF hr ok ne, of rest' test keep "[]" "f2(r \<mapsto> ?text)"] last Cons
    obtain cur' c' f' where l4: "fields_loop test keep (Some h', [], f2(r \<mapsto> ?text)) rest' = Inr (cur', c', f')"
      and ok': "ok_cur cur'" "cur' \<noteq> Some h" and v: "f' r = Some ?text" by auto
    from store_field_untouched [OF hr ok', of c' f'] v l4 st l123 Cons
    show ?thesis by (auto simp add: extract_fields_def)
  qed
qed





lemmas py_eval =
  ustr_def strip_def lstrip_def rstrip_def isspace_def startswith_def slice_def
  headers_map_def find_header_def label_test_parser2_def label_test_parse_questions_def
  truthy_def store_field_def fields_step_def extract_fields_def extract_fields_parser2_def
  extract_fields_parse_questions_def fields_get_def

lemma strip_Nil [simp]: "strip [] = []"
  by (simp add: strip_def lstrip_def rstrip_def)

lemma store_field_dom:
  assumes "ok_cur cur" and "f r \<noteq> None"
  shows "\<exists>f'. store_field cur c f = Inr f' \<and> f' r \<noteq> None"
  using assms(1)
proof (cases rule: ok_cur_cases)
  case 1
  with assms(2) show ?thesis by simp
next
  case (2 h0 r0)
  with assms(2) show ?thesis by (simp add: store_field_key)
qed

lemma fields_loop_dom:
  assumes "ok_cur cur" and "f r \<noteq> None"
  shows "\<exists>cur' c' f'. fields_loop test keep (cur, c, f) ls = Inr (cur', c', f')
           \<and> ok_cur cur' \<and> f' r \<noteq> None"
  using assms
proof (induction ls arbitrary: cur c f)
  case Nil
  then show ?case by simp
next
  case (Cons l ls)
  show ?case
  proof (cases "find_header test (strip l)")
    case None
    from fields_step_other [OF None, of keep cur c f] Cons.IH [of cur f] Cons.prems
    show ?thesis by (auto split: if_splits)
  next
    case (Some h')
    have ok: "ok_cur (Some h')" using find_header_Some [OF Some] by (auto intro: ok_cur_key)
    from fields_step_label [OF Some Cons.prems(1), of keep c f]
    obtain f' where st: "fields_step test keep (cur, c, f) l = Inr (Some h', [], f')"
      and n: "cur = None \<longrightarrow> f' = f"
      and k: "\<forall>h r. cur = Some h \<and> (h, r) \<in> set headers_map \<longrightarrow> f' = f(r \<mapsto> strip (join [NL] c))"
      by blast
    have "f' r \<noteq> None"
      using Cons.prems(1)
    proof (cases rule: ok_cur_cases)
      case 1
      with n Cons.prems(2) show ?thesis by simp
    next
      case (2 h0 r0)
      with k have "f' = f(r0 \<mapsto> strip (join [NL] c))" by blast
      with Cons.prems(2) show ?thesis by simp
    qed
    with ok Cons.IH [of "Some h'" f' "[]"] st show ?thesis by simp
  qed
qed

lemma extract_fields_empty_present:
  assumes hr: "(h, r) \<in> set headers_map"
    and l1: "find_header test (strip l1) = Some h"
    and l2: "find_header test (strip l2) \<noteq> None"
  shows "\<exists>m. extract_fields test keep (pre @ [l1, l2] @ rest) = Inr m \<and> m r \<noteq> None"
proof -
  from fields_loop_total [of None test keep "[]" Map.empty pre]
  obtain cur1 c1 f1 where a: "fields_loop test keep (None, [], Map.empty) pre = Inr (cur1, c1, f1)"
    and ok1: "ok_cur cur1" by auto
  from fields_step_label [OF l1 ok1, of keep c1 f1]
  obtain f2 where b: "fields_step test keep (cur1, c1, f1) l1 = Inr (Some h, [], f2)" by blast
  from l2 obtain h2 where h2: "find_header test (strip l2) = Some h2" by auto
  have ok2: "ok_cur (Some h2)" using find_header_Some [OF h2] by (auto intro: ok_cur_key)
  from fields_step_label [OF h2 ok_cur_key [OF hr], of keep "[]" f2] hr
  have c: "fields_step test keep (Some h, [], f2) l2 = Inr (Some h2, [], f2(r \<mapsto> []))" by auto
  from ok2 fields_loop_dom [of "Some h2" "f2(r \<mapsto> [])" r test keep "[]" rest]
  obtain cur' c' f' where d: "fields_loop test keep (Some h2, [], f2(r \<mapsto> [])) rest = Inr (cur', c', f')"
    and ok': "ok_cur cur'" and v: "f' r \<noteq> None" by auto
  from ok' v store_field_dom [of cur' f' r c'] a b c d show ?thesis
    by (auto simp add: extract_fields_def fields_loop_append)
qed

lemma find_header_iff:
  "find_header test s \<noteq> None \<longleftrightarrow> (\<exists>h\<in>fst ` set headers_map. test h s)"
  by (auto simp add: find_header_def find_None_iff)

lemma label_test_parse_questions_iff:
  "label_test_parse_questions h s \<longleftrightarrow> startswith s h"
  by (auto simp add: label_test_parse_questions_def startswith_def prefix_imp_sublist)



lemmas spec_eval = chomp_def blank_line_def trim_blank_lines_def spec_field_text_def field_of_def

text \<open>
  C3, as stated, fails: the text of a field is stripped as one string, so the indentation
  of its first line is lost. In \<open>body1\<close> the lines after the label are
  \<open>"    if x:"\<close> and \<open>"        y"\<close>; the specification's text keeps the four
  spaces before \<open>if\<close>, the text that parser2.py stores starts at \<open>if\<close>.
\<close>

theorem field_text_counterexample:
  "field_of (extract_fields_parser2 body1) (ustr ''initialCode'')
     = Some (ustr ''if x:'' @ [NL] @ ustr ''        y'')
   \<and> spec_field_text (tl body1) = ustr ''    if x:'' @ [NL] @ ustr ''        y''
   \<and> field_of (extract_fields_parser2 body1) (ustr ''initialCode'')
       \<noteq> Some (spec_field_text (tl body1))"
  by (simp add: body1_def py_eval spec_eval)

lemma isspace_NL [simp]: "isspace NL"
  by (simp add: isspace_def)

lemma rstrip_Nil [simp]: "rstrip [] = []"
  by (simp add: rstrip_def)

lemma rstrip_eq_Nil: "rstrip s = [] \<longleftrightarrow> (\<forall>c\<in>set s. isspace c)"
  by (auto simp add: rstrip_def dropWhile_eq_Nil_conv)

lemma rstrip_last: "rstrip s \<noteq> [] \<Longrightarrow> \<not> isspace (last (rstrip s))"
proof -
  assume a: "rstrip s \<noteq> []"
  then have "dropWhile isspace (rev s) \<noteq> []" by (simp add: rstrip_def)
  then have "\<not> isspace (hd (dropWhile isspace (rev s)))" by (rule hd_dropWhile)
  with a show ?thesis by (simp add: rstrip_def last_rev)
qed

lemma blank_line_iff: "blank_line s \<longleftrightarrow> (\<forall>c\<in>set s. isspace c)"
proof
  assume "blank_line s"
  then have "dropWhile isspace (rstrip s) = []"
    by (simp add: blank_line_def strip_def lstrip_def)
  then have all: "\<forall>c\<in>set (rstrip s). isspace c" by (simp add: dropWhile_eq_Nil_conv)
  have "rstrip s = []"
  proof (rule ccontr)
    assume n: "rstrip s \<noteq> []"
    then have "last (rstrip s) \<in> set (rstrip s)" by simp
    with all rstrip_last [OF n] show False by blast
  qed
  then show "\<forall>c\<in>set s. isspace c" by (simp add: rstrip_eq_Nil)
next
  assume "\<forall>c\<in>set s. isspace c"
  then have "rstrip s = []" by (simp add: rstrip_eq_Nil)
  then show "blank_line s" by (simp add: blank_line_def strip_def lstrip_def)
qed

lemma rstrip_blank: "blank_line s \<Longrightarrow> rstrip s = []"
  by (simp add: blank_line_iff rstrip_eq_Nil)

lemma rstrip_nonblank: "\<not> blank_line s \<Longrightarrow> rstrip s \<noteq> []"
  by (simp add: blank_line_iff rstrip_eq_Nil)

lemma rstrip_idem_last: "s \<noteq> [] \<Longrightarrow> \<not> isspace (last s) \<Longrightarrow> rstrip s = s"
proof -
  assume "s \<noteq> []" and "\<not> isspace (last s)"
  then have "dropWhile isspace (rev s) = rev s"
    by (cases "rev s") (auto simp add: last_rev hd_rev)
  then show ?thesis by (simp add: rstrip_def)
qed

lemma lstrip_append: "\<exists>c\<in>set u. \<not> isspace c \<Longrightarrow> lstrip (u @ v) = lstrip u @ v"
  by (auto simp add: lstrip_def intro: dropWhile_append1)

lemma lstrip_spaces: "\<forall>c\<in>set u. isspace c \<Longrightarrow> lstrip (u @ v) = lstrip v"
  by (simp add: lstrip_def dropWhile_append2)

lemma rstrip_spaces: "\<forall>c\<in>set v. isspace c \<Longrightarrow> rstrip (u @ v) = rstrip u"
proof -
  assume "\<forall>c\<in>set v. isspace c"
  then have "dropWhile isspace (rev v @ rev u) = dropWhile isspace (rev u)"
    by (intro dropWhile_append2) simp
  then show ?thesis by (simp add: rstrip_def)
qed

lemma strip_padded:
  assumes "\<forall>c\<in>set u. isspace c" and "\<forall>c\<in>set v. isspace c"
    and "y \<noteq> []" and "\<not> isspace (last y)"
  shows "strip (u @ y @ v) = lstrip y"
proof -
  have "rstrip (u @ y @ v) = rstrip (u @ y)"
    using rstrip_spaces [OF assms(2), of "u @ y"] by simp
  also have "\<dots> = u @ y"
    using assms(3,4) by (simp add: rstrip_idem_last)
  finally show ?thesis
    using assms(1) by (simp add: strip_def lstrip_spaces)
qed

lemma join_Cons_nonempty: "ws \<noteq> [] \<Longrightarrow> join sep (w # ws) = w @ sep @ join sep ws"
  by (cases ws) simp_all

lemma join_snoc: "ws \<noteq> [] \<Longrightarrow> join sep (ws @ [w]) = join sep ws @ sep @ w"
proof (induction ws)
  case Nil
  then show ?case by simp
next
  case (Cons x ws)
  then show ?case by (cases ws) simp_all
qed

lemma join_replicate_left:
  "ws \<noteq> [] \<Longrightarrow> join [c] (replicate k [] @ ws) = replicate k c @ join [c] ws"
  by (induction k) (simp_all add: join_Cons_nonempty)

lemma join_replicate_right:
  "ws \<noteq> [] \<Longrightarrow> join [c] (ws @ replicate k []) = join [c] ws @ replicate k c"
proof (induction k)
  case 0
  then show ?case by simp
next
  case (Suc k)
  have "join [c] (ws @ replicate (Suc k) []) = join [c] ((ws @ replicate k []) @ [[]])"
    by (simp add: replicate_append_same)
  also have "\<dots> = join [c] (ws @ replicate k []) @ [c]"
    using Suc.prems by (simp add: join_snoc del: append_assoc)
  finally show ?case
    using Suc by (simp add: replicate_append_same)
qed

lemma last_join:
  "ws \<noteq> [] \<Longrightarrow> last ws \<noteq> [] \<Longrightarrow> join sep ws \<noteq> [] \<and> last (join sep ws) = last (last ws)"
proof (induction ws)
  case Nil
  then show ?case by simp
next
  case (Cons w ws)
  then show ?case by (cases ws) simp_all
qed

lemma map_rstrip_blank: "\<forall>l\<in>set ls. blank_line l \<Longrightarrow> map rstrip ls = replicate (length ls) []"
  by (induction ls) (simp_all add: rstrip_blank)

lemma lstrip_rstrip_nonblank:
  assumes "\<not> blank_line a"
  shows "lstrip (rstrip a @ t) = strip a @ t"
proof -
  have n: "rstrip a \<noteq> []" using assms by (rule rstrip_nonblank)
  then have "last (rstrip a) \<in> set (rstrip a)" by simp
  with rstrip_last [OF n] have "\<exists>c\<in>set (rstrip a). \<not> isspace c" by blast
  then show ?thesis by (simp add: lstrip_append strip_def)
qed

lemma field_text_shape:
  assumes pre: "\<forall>l\<in>set pre. blank_line l" and post: "\<forall>l\<in>set post. blank_line l"
    and a: "\<not> blank_line a" and z: "later = [] \<or> \<not> blank_line (last later)"
  shows "strip (join [NL] (map rstrip (pre @ a # later @ post)))
         = join [NL] (strip a # map rstrip later)"
proof -
  let ?ws = "rstrip a # map rstrip later"
  let ?y = "join [NL] ?ws"
  have ws: "?ws \<noteq> []" by simp
  have lastws: "last ?ws \<noteq> [] \<and> \<not> isspace (last (last ?ws))"
  proof (cases "later = []")
    case True
    with rstrip_nonblank [OF a] rstrip_last [of a] show ?thesis by simp
  next
    case False
    with z have nb: "\<not> blank_line (last later)" by simp
    from False have "last ?ws = rstrip (last later)" by (simp add: last_map)
    with rstrip_nonblank [OF nb] rstrip_last [of "last later"] show ?thesis by simp
  qed
  have y: "?y \<noteq> [] \<and> \<not> isspace (last ?y)"
    using last_join [OF ws, of "[NL]"] lastws by simp
  have "map rstrip (pre @ a # later @ post)
      = replicate (length pre) [] @ ?ws @ replicate (length post) []"
    by (simp add: map_rstrip_blank [OF pre] map_rstrip_blank [OF post])
  then have "join [NL] (map rstrip (pre @ a # later @ post))
      = replicate (length pre) NL @ ?y @ replicate (length post) NL"
    using join_replicate_left [of "?ws @ replicate (length post) []" NL "length pre"]
      join_replicate_right [OF ws, of NL "length post"]
    by simp
  then have "strip (join [NL] (map rstrip (pre @ a # later @ post))) = lstrip ?y"
    using y by (simp add: strip_padded)
  also have "\<dots> = join [NL] (strip a # map rstrip later)"
  proof (cases "later = []")
    case True
    then show ?thesis using lstrip_rstrip_nonblank [OF a, of "[]"] by simp
  next
    case False
    then show ?thesis
      using lstrip_rstrip_nonblank [OF a, of "[NL] @ join [NL] (map rstrip later)"]
      by (simp add: join_Cons_nonempty)
  qed
  finally show ?thesis .
qed

lemma field_text_blank:
  assumes "\<forall>l\<in>set ls. blank_line l"
  shows "strip (join [NL] (map rstrip ls)) = []"
proof -
  have "\<forall>c\<in>set (join [NL] (replicate k [])). isspace c" for k
  proof (induction k)
    case 0
    then show ?case by simp
  next
    case (Suc k)
    then show ?case by (cases k) simp_all
  qed
  then have "rstrip (join [NL] (map rstrip ls)) = []"
    by (simp add: map_rstrip_blank [OF assms] rstrip_eq_Nil)
  then show ?thesis by (simp add: strip_def lstrip_def)
qed

text \<open>
  C3, amended. In parser2.py the text stored for a role is this: take the lines strictly
  between a label line of the role and the next label line (or the end of the span),
  where no later line of the span is a label line of the same role; remove the trailing
  white space of each; join them with line feeds; strip the white space at both ends of
  the result. So the blank lines at both ends go, the first line that is left loses its
  indentation as well, and every later line is kept with its indentation, the blank lines
  among them too; when all the lines are blank the text is empty.
\<close>

theorem field_text_between:
  assumes "(h, r) \<in> set headers_map"
    and "find_header label_test_parser2 (strip hl) = Some h"
    and "\<forall>l\<in>set content. find_header label_test_parser2 (strip l) = None"
    and "rest = [] \<or> find_header label_test_parser2 (strip (hd rest)) \<noteq> None"
    and "\<forall>l\<in>set rest. find_header label_test_parser2 (strip l) \<noteq> Some h"
  shows "\<exists>m. extract_fields_parser2 (pre @ [hl] @ content @ rest) = Inr m
           \<and> m r = Some (strip (join [NL] (map rstrip content)))
           \<and> ((\<forall>l\<in>set content. blank_line l) \<longrightarrow> m r = Some [])
           \<and> (\<forall>b1 a later b2.
                 content = b1 @ a # later @ b2
                 \<and> (\<forall>l\<in>set b1. blank_line l) \<and> (\<forall>l\<in>set b2. blank_line l)
                 \<and> \<not> blank_line a \<and> (later = [] \<or> \<not> blank_line (last later))
                 \<longrightarrow> m r = Some (join [NL] (strip a # map rstrip later)))"
proof -
  from extract_fields_between [OF assms, of rstrip pre]
  obtain m where m: "extract_fields_parser2 (pre @ [hl] @ content @ rest) = Inr m"
    and v: "m r = Some (strip (join [NL] (map rstrip content)))"
    by (auto simp add: extract_fields_parser2_def)
  have "m r = Some []" if "\<forall>l\<in>set content. blank_line l"
    using v field_text_blank [OF that] by simp
  moreover have "m r = Some (join [NL] (strip a # map rstrip later))"
    if "content = b1 @ a # later @ b2
        \<and> (\<forall>l\<in>set b1. blank_line l) \<and> (\<forall>l\<in>set b2. blank_line l)
        \<and> \<not> blank_line a \<and> (later = [] \<or> \<not> blank_line (last later))"
    for b1 a later b2
    using v that field_text_shape [of b1 b2 a later] by simp
  ultimately show ?thesis using m v by blast
qed

theorem field_text_between_witness:
  "field_of (extract_fields_parser2 body2) (ustr ''initialCode'')
     = Some (ustr ''a = 1'' @ [NL] @ [NL] @ ustr ''    b'')
   \<and> join [NL] (strip (ustr ''  a = 1  '' @ [NL]) # map rstrip [[NL], ustr ''    b'' @ [NL]])
     = ustr ''a = 1'' @ [NL] @ [NL] @ ustr ''    b''"
proof -
  have h: "(ustr ''Broken Code'', ustr ''initialCode'') \<in> set headers_map"
    by (simp add: headers_map_def)
  have hl: "find_header label_test_parser2 (strip (ustr ''Broken Code'' @ [NL])) = Some (ustr ''Broken Code'')"
    by (simp add: py_eval)
  have c: "\<forall>l\<in>set (take 5 (tl body2)). find_header label_test_parser2 (strip l) = None"
    by (simp add: body2_def py_eval)
  have n: "drop 6 body2 = [] \<or> find_header label_test_parser2 (strip (hd (drop 6 body2))) \<noteq> None"
    by (simp add: body2_def py_eval)
  have l: "\<forall>l\<in>set (drop 6 body2). find_header label_test_parser2 (strip l) \<noteq> Some (ustr ''Broken Code'')"
    by (simp add: body2_def py_eval)
  have b: "body2 = [] @ [ustr ''Broken Code'' @ [NL]] @ take 5 (tl body2) @ drop 6 body2"
    by (simp add: body2_def)
  have sh: "take 5 (tl body2) = [[NL]] @ (ustr ''  a = 1  '' @ [NL]) # [[NL], ustr ''    b'' @ [NL]] @ [[NL]]
      \<and> (\<forall>l\<in>set [[NL]]. blank_line l) \<and> (\<forall>l\<in>set [[NL]]. blank_line l)
      \<and> \<not> blank_line (ustr ''  a = 1  '' @ [NL])
      \<and> ([[NL], ustr ''    b'' @ [NL]] = [] \<or> \<not> blank_line (last [[NL], ustr ''    b'' @ [NL]]))"
    by (simp add: body2_def blank_line_def py_eval)
  have j: "join [NL] (strip (ustr ''  a = 1  '' @ [NL]) # map rstrip [[NL], ustr ''    b'' @ [NL]])
     = ustr ''a = 1'' @ [NL] @ [NL] @ ustr ''    b''"
    by (simp add: py_eval)
  from field_text_between [OF h hl c n l, of "[]"] b
  obtain m where m: "extract_fields_parser2 body2 = Inr m"
    and s: "\<forall>b1 a later b2.
                 take 5 (tl body2) = b1 @ a # later @ b2
                 \<and> (\<forall>l\<in>set b1. blank_line l) \<and> (\<forall>l\<in>set b2. blank_line l)
                 \<and> \<not> blank_line a \<and> (later = [] \<or> \<not> blank_line (last later))
                 \<longrightarrow> m (ustr ''initialCode'') = Some (join [NL] (strip a # map rstrip later))"
    by auto
  from s sh have "m (ustr ''initialCode'')
      = Some (join [NL] (strip (ustr ''  a = 1  '' @ [NL]) # map rstrip [[NL], ustr ''    b'' @ [NL]]))"
    by blast
  with m j show ?thesis by (simp add: field_of_def)
qed


text \<open>
  C4, as stated, fails: no label needs an exact match. parser2.py takes the long label
  followed by a colon as a label line, and parse_questions.py, which has no bound on the
  length, takes a sentence that starts with \<open>Error\<close> and is 26 characters longer.
\<close>

theorem label_exact_match_counterexample:
  "find_header label_test_parser2 (strip (ustr ''Hidden Test Cases (Logic-validated):'' @ [NL]))
     = Some (ustr ''Hidden Test Cases (Logic-validated)'')
   \<and> strip (ustr ''Hidden Test Cases (Logic-validated):'' @ [NL])
       \<noteq> ustr ''Hidden Test Cases (Logic-validated)''
   \<and> find_header label_test_parse_questions (strip (ustr ''Error handling is a large topic''))
       = Some (ustr ''Error'')
   \<and> length (strip (ustr ''Error handling is a large topic'')) = length (ustr ''Error'') + 26"
  by (simp add: py_eval)

text \<open>
  C4, amended. In parser2.py a line is a label line exactly when its stripped form starts
  with a label of \<open>headers_map\<close> and is at most five characters longer than that
  label, for every label, the long one included. In parse_questions.py it is one exactly
  when its stripped form starts with a label. In both, a label that occurs later in the
  line, and not at its start, does not make it a label line.
\<close>

theorem label_line_rule:
  "(find_header label_test_parser2 (strip line) \<noteq> None)
     = (\<exists>h\<in>fst ` set headers_map.
          startswith (strip line) h \<and> length (strip line) \<le> length h + 5)
   \<and> (find_header label_test_parse_questions (strip line) \<noteq> None)
     = (\<exists>h\<in>fst ` set headers_map. startswith (strip line) h)"
proof -
  have a: "(find_header label_test_parser2 (strip line) \<noteq> None)
     = (\<exists>h\<in>fst ` set headers_map.
          startswith (strip line) h \<and> length (strip line) \<le> length h + 5)"
    by (simp only: find_header_iff label_test_parser2_def)
  have b: "(find_header label_test_parse_questions (strip line) \<noteq> None)
     = (\<exists>h\<in>fst ` set headers_map. startswith (strip line) h)"
    by (simp only: find_header_iff label_test_parse_questions_iff)
  from a b show ?thesis by (rule conjI)
qed

theorem label_line_rule_witness:
  "find_header label_test_parser2 (strip (ustr ''  Error:  '' @ [NL])) \<noteq> None
   \<and> find_header label_test_parser2 (strip (ustr ''The Error is here'' @ [NL])) = None
   \<and> find_header label_test_parse_questions (strip (ustr ''The Error is here'')) = None
   \<and> find_header label_test_parser2 (strip (ustr ''Error: 12345'' @ [NL])) = None"
proof -
  have k: "fst ` set headers_map = set (map fst headers_map)" by simp
  have a: "\<exists>h\<in>fst ` set headers_map. startswith (strip (ustr ''  Error:  '' @ [NL])) h
             \<and> length (strip (ustr ''  Error:  '' @ [NL])) \<le> length h + 5"
    unfolding k by (simp add: py_eval)
  have b: "\<not> (\<exists>h\<in>fst ` set headers_map. startswith (strip (ustr ''The Error is here'' @ [NL])) h
             \<and> length (strip (ustr ''The Error is here'' @ [NL])) \<le> length h + 5)"
    unfolding k by (simp add: py_eval)
  have c: "\<not> (\<exists>h\<in>fst ` set headers_map. startswith (strip (ustr ''The Error is here'')) h)"
    unfolding k by (simp add: py_eval)
  have d: "\<not> (\<exists>h\<in>fst ` set headers_map. startswith (strip (ustr ''Error: 12345'' @ [NL])) h
             \<and> length (strip (ustr ''Error: 12345'' @ [NL])) \<le> length h + 5)"
    unfolding k by (simp add: py_eval)
  from a b c d
    label_line_rule [of "ustr ''  Error:  '' @ [NL]"]
    label_line_rule [of "ustr ''The Error is here'' @ [NL]"]
    label_line_rule [of "ustr ''The Error is here''"]
    label_line_rule [of "ustr ''Error: 12345'' @ [NL]"]
  show ?thesis by blast
qed


text \<open>
  C5. The extraction of the fields of a span never fails, in parser2.py and in
  parse_questions.py; and when no line of the span is a label line of a label, the
  resulting mapping has no entry for its role (and \<open>fields.get\<close> gives the empty
  string for it).
\<close>

theorem missing_label_absent:
  "(\<exists>m. extract_fields_parser2 body_lines = Inr m)
   \<and> (\<exists>m. extract_fields_parse_questions body = Inr m)
   \<and> ((h, r) \<in> set headers_map
        \<and> (\<forall>l\<in>set body_lines. find_header label_test_parser2 (strip l) \<noteq> Some h)
       \<longrightarrow> (\<exists>m. extract_fields_parser2 body_lines = Inr m \<and> m r = None \<and> fields_get m r = []))
   \<and> ((h, r) \<in> set headers_map
        \<and> (\<forall>l\<in>set (split_chr NL body). find_header label_test_parse_questions (strip l) \<noteq> Some h)
       \<longrightarrow> (\<exists>m. extract_fields_parse_questions body = Inr m \<and> m r = None \<and> fields_get m r = []))"
proof (intro conjI impI)
  show "\<exists>m. extract_fields_parser2 body_lines = Inr m"
    unfolding extract_fields_parser2_def by (rule extract_fields_total)
  show "\<exists>m. extract_fields_parse_questions body = Inr m"
    unfolding extract_fields_parse_questions_def by (rule extract_fields_total)
next
  assume "(h, r) \<in> set headers_map
        \<and> (\<forall>l\<in>set body_lines. find_header label_test_parser2 (strip l) \<noteq> Some h)"
  then have hr: "(h, r) \<in> set headers_map"
    and ab: "\<forall>l\<in>set body_lines. find_header label_test_parser2 (strip l) \<noteq> Some h"
    by simp_all
  from extract_fields_absent [OF hr ab]
  have "\<exists>m. extract_fields label_test_parser2 rstrip body_lines = Inr m \<and> m r = None" .
  then show "\<exists>m. extract_fields_parser2 body_lines = Inr m \<and> m r = None \<and> fields_get m r = []"
    by (auto simp add: extract_fields_parser2_def fields_get_def)
next
  assume "(h, r) \<in> set headers_map
        \<and> (\<forall>l\<in>set (split_chr NL body). find_header label_test_parse_questions (strip l) \<noteq> Some h)"
  then have hr: "(h, r) \<in> set headers_map"
    and ab: "\<forall>l\<in>set (split_chr NL body). find_header label_test_parse_questions (strip l) \<noteq> Some h"
    by simp_all
  from extract_fields_absent [OF hr ab]
  have "\<exists>m. extract_fields label_test_parse_questions (\<lambda>line. line) (split_chr NL body) = Inr m
      \<and> m r = None" .
  then show "\<exists>m. extract_fields_parse_questions body = Inr m \<and> m r = None \<and> fields_get m r = []"
    by (auto simp add: extract_fields_parse_questions_def fields_get_def)
qed

theorem missing_label_absent_witness:
  "(ustr ''Error'', ustr ''description'') \<in> set headers_map
   \<and> field_of (extract_fields_parser2 body3) (ustr ''description'') = None
   \<and> field_of (extract_fields_parser2 body3) (ustr ''initialCode'') = Some (ustr ''x = 1'')
   \<and> field_of (extract_fields_parser2 body3) (ustr ''correctCode'') = Some (ustr ''x = 2'')"
proof -
  have h: "(ustr ''Error'', ustr ''description'') \<in> set headers_map"
    by (simp add: headers_map_def)
  have a: "\<forall>l\<in>set body3. find_header label_test_parser2 (strip l) \<noteq> Some (ustr ''Error'')"
    by (simp add: body3_def py_eval)
  from h a missing_label_absent [of body3 "[]" "ustr ''Error''" "ustr ''description''"]
  have "field_of (extract_fields_parser2 body3) (ustr ''description'') = None"
    by (auto simp add: field_of_def)
  moreover have "field_of (extract_fields_parser2 body3) (ustr ''initialCode'') = Some (ustr ''x = 1'')"
    "field_of (extract_fields_parser2 body3) (ustr ''correctCode'') = Some (ustr ''x = 2'')"
    by (simp_all add: body3_def py_eval field_of_def)
  ultimately show ?thesis using h by simp
qed

text \<open>
  C6, as stated, fails: in \<open>body5\<close> the label line \<open>Error\<close> is directly followed by
  the label line \<open>Correct Code\<close>, and \<open>Error\<close> occurs again further down with the
  body \<open>boom\<close>. The second store replaces the empty string, and the role
  \<open>description\<close> ends with the text \<open>boom\<close>.
\<close>

theorem empty_field_overwritten_counterexample:
  "find_header label_test_parser2 (strip (body5 ! 0)) = Some (ustr ''Error'')
   \<and> find_header label_test_parser2 (strip (body5 ! 1)) = Some (ustr ''Correct Code'')
   \<and> field_of (extract_fields_parser2 body5) (ustr ''description'') = Some (ustr ''boom'')
   \<and> field_of (extract_fields_parser2 body5) (ustr ''description'') \<noteq> Some []"
  by (simp add: body5_def py_eval field_of_def)

text \<open>
  C6, amended. When a label line is directly followed by another label line, the resulting
  mapping of parser2.py has an entry for the role of the first, whatever comes later; the
  entry is the empty string when no later line of the span is a label line of the same
  label (a later label line of that label replaces the entry by its own text).
\<close>

theorem empty_field_present:
  assumes "(h, r) \<in> set headers_map"
    and "find_header label_test_parser2 (strip l1) = Some h"
    and "find_header label_test_parser2 (strip l2) \<noteq> None"
  shows "\<exists>m. extract_fields_parser2 (pre @ [l1, l2] @ rest) = Inr m \<and> m r \<noteq> None
           \<and> ((\<forall>l\<in>set (l2 # rest). find_header label_test_parser2 (strip l) \<noteq> Some h)
                \<longrightarrow> m r = Some [])"
proof -
  from extract_fields_empty_present [OF assms, of rstrip pre rest]
  obtain m where m: "extract_fields_parser2 (pre @ [l1, l2] @ rest) = Inr m" "m r \<noteq> None"
    by (auto simp add: extract_fields_parser2_def)
  have "m r = Some []" if "\<forall>l\<in>set (l2 # rest). find_header label_test_parser2 (strip l) \<noteq> Some h"
  proof -
    from extract_fields_between [OF assms(1,2), of "[]" "l2 # rest" rstrip pre] assms(3) that
    have "\<exists>m'. extract_fields_parser2 (pre @ [l1] @ [] @ l2 # rest) = Inr m' \<and> m' r = Some []"
      by (simp add: extract_fields_parser2_def)
    with m show ?thesis by simp
  qed
  with m show ?thesis by blast
qed

theorem empty_field_present_witness:
  "field_of (extract_fields_parser2 body4) (ustr ''description'') = Some []"
proof -
  have h: "(ustr ''Error'', ustr ''description'') \<in> set headers_map"
    by (simp add: headers_map_def)
  have l1: "find_header label_test_parser2 (strip (ustr ''Error'' @ [NL])) = Some (ustr ''Error'')"
    by (simp add: py_eval)
  have l2: "find_header label_test_parser2 (strip (ustr ''Correct Code'' @ [NL])) \<noteq> None"
    by (simp add: py_eval)
  have r: "\<forall>l\<in>set ((ustr ''Correct Code'' @ [NL]) # drop 4 body4).
             find_header label_test_parser2 (strip l) \<noteq> Some (ustr ''Error'')"
    by (simp add: body4_def py_eval)
  have b: "body4 = take 2 body4 @ [ustr ''Error'' @ [NL], ustr ''Correct Code'' @ [NL]] @ drop 4 body4"
    by (simp add: body4_def)
  from empty_field_present [OF h l1 l2, of "take 2 body4" "drop 4 body4"] r b
  show ?thesis by (auto simp add: field_of_def)
qed

section \<open>Properties of the title\<close>











section \<open>Properties of the runs\<close>

lemma str_nat_0 [simp]: "str_nat 0 = ustr ''0''"
  by (simp add: str_nat.simps ustr_def)

text \<open>
  C7, as stated, fails: on a document of two lines without a header line, parser2.py
  prints its four progress lines, the last one \<open>Found 0 questions\<close>, and exits with
  status 0; on the same text generate_puzzles.py prints \<open>No start patterns found!\<close>.
  Neither prints an excerpt of the document.
\<close>

theorem no_boundaries_counterexample:
  "parser2_run ascii_db (Some [ustr ''hello'' @ [NL], ustr ''world'' @ [NL]])
     = \<lparr> stdout = [ustr ''SCRIPT STARTED'', ustr ''Reading '' @ file_path,
                    ustr ''Read 2 lines'', ustr ''Found 0 questions''],
         written = None, outcome = Exit 0 \<rparr>
   \<and> parse_puzzles (ustr ''hello'' @ [NL] @ ustr ''world'' @ [NL])
     = \<lparr> stdout = [ustr ''No start patterns found!''], written = None, outcome = Finished \<rparr>"
  by (simp add: parser2_run_def parse_puzzles_def parse_puzzles_with_def q_starts_def
      is_question_header_def startswith_def ustr_def str_nat.simps start_match_def
      puzzle_digit_def)

text \<open>
  C7, amended. When no record boundary is found, each script prints a message and stops
  before it generates anything: parse_questions.py prints that no match was found and
  the first 500 characters of the document; parser2.py prints the number of lines read
  and \<open>Found 0 questions\<close> and exits with status 0; generate_puzzles.py prints
  \<open>No start patterns found!\<close> and returns without writing its output file.
\<close>

theorem no_boundaries_no_output:
  "(finditer_q db content = [] \<longrightarrow>
      parse_questions db (Some content)
        = \<lparr> stdout = [ustr ''No matches found for question pattern.'',
                       ustr ''First 500 chars:'', take 500 content],
            written = None, outcome = Finished \<rparr>)
   \<and> (q_starts db lines = [] \<longrightarrow>
      parser2_run db (Some lines)
        = \<lparr> stdout = [ustr ''SCRIPT STARTED'', ustr ''Reading '' @ file_path,
                       ustr ''Read '' @ str_nat (length lines) @ ustr '' lines'',
                       ustr ''Found 0 questions''],
            written = None, outcome = Exit 0 \<rparr>)
   \<and> (find_starts 0 0 text = [] \<longrightarrow>
      parse_puzzles text
        = \<lparr> stdout = [ustr ''No start patterns found!''], written = None,
            outcome = Finished \<rparr>)"
  by (simp add: parse_questions_def parser2_run_def parse_puzzles_def parse_puzzles_with_def
      ustr_def)

theorem no_boundaries_no_output_witness:
  "finditer_q ascii_db text1 = []
   \<and> parse_questions ascii_db (Some text1)
        = \<lparr> stdout = [ustr ''No matches found for question pattern.'',
                       ustr ''First 500 chars:'', text1],
            written = None, outcome = Finished \<rparr>
   \<and> find_starts 0 0 text1 = []
   \<and> parse_puzzles text1
        = \<lparr> stdout = [ustr ''No start patterns found!''], written = None,
            outcome = Finished \<rparr>"
proof -
  have a: "finditer_q ascii_db text1 = []"
    by (simp add: finditer_q_def text1_def ustr_def match_line_def)
  have b: "find_starts 0 0 text1 = []"
    by (simp add: text1_def ustr_def start_match_def puzzle_digit_def)
  have c: "take 500 text1 = text1" by (simp add: text1_def ustr_def)
  from a b c no_boundaries_no_output [of ascii_db text1 "[]" text1] show ?thesis by simp
qed








end
